theory Spec2Isabelle
  imports Main "HOL-Library.Sublist" "HOL-Library.Char_ord" "HOL-Library.List_Lexorder"
    "HOL-Library.AList"
begin
section \<open>Strings and the pieces of the standard library the tool calls\<close>

text \<open>
  The tool is a Python script (\<^verbatim>\<open>move-files.py\<close>).  A Python string is modelled as the
  \<^typ>\<open>string\<close> of the bytes of its UTF-8 encoding; every character the script inspects
  is ASCII, and the bytes of a multi-byte UTF-8 sequence are not.  A file on disk is the \<^typ>\<open>string\<close>
  of its bytes.  \<^verbatim>\<open>os.path\<close> is modelled as \<^verbatim>\<open>posixpath\<close>: the separator is the slash,
  a backslash is an ordinary character of a file name, and the line separator is the line
  feed.
\<close>

definition slash :: char where "slash = CHR ''/''"
definition dot :: char where "dot = CHR ''.''"
definition backslash :: char where "backslash = CHR 0x5C"
definition dquote :: char where "dquote = CHR 0x22"
definition newline :: char where "newline = CHR 0x0A"
definition cr :: char where "cr = CHR 0x0D"

datatype error =
    ValueError
  | FileNotFoundError string
  | UnicodeDecodeError string
  | OSError string
  | KeyError string
  | CalledProcessError string string

subsection \<open>\<^verbatim>\<open>str.split\<close>, \<^verbatim>\<open>str.join\<close>, \<^verbatim>\<open>str.replace\<close>\<close>

text \<open>\<^verbatim>\<open>s.split(c)\<close> for a one-character separator: never empty, \<^verbatim>\<open>''.split('/') == ['']\<close>.\<close>

fun split_on :: "char \<Rightarrow> string \<Rightarrow> string list" where
  "split_on c [] = [[]]"
| "split_on c (x # xs) =
     (if x = c then [] # split_on c xs
      else (case split_on c xs of
              [] \<Rightarrow> [[x]]
            | w # ws \<Rightarrow> (x # w) # ws))"

text \<open>\<^verbatim>\<open>c.join(ws)\<close>.\<close>

fun join_with :: "char \<Rightarrow> string list \<Rightarrow> string" where
  "join_with c [] = []"
| "join_with c [w] = w"
| "join_with c (w # v # ws) = w @ c # join_with c (v # ws)"

text \<open>
  \<^verbatim>\<open>s.replace(old, new)\<close>: the occurrences of \<^verbatim>\<open>old\<close> are found from the left and
  do not overlap; an empty \<^verbatim>\<open>old\<close> matches before every character and at the end.
\<close>

fun str_replace :: "string \<Rightarrow> string \<Rightarrow> string \<Rightarrow> string" where
  "str_replace [] new s = new @ concat (map (\<lambda>c. c # new) s)"
| "str_replace (a # old) new [] = []"
| "str_replace (a # old) new (c # cs) =
     (if prefix (a # old) (c # cs)
      then new @ str_replace (a # old) new (drop (length old) cs)
      else c # str_replace (a # old) new cs)"

subsection \<open>\<^verbatim>\<open>posixpath\<close>\<close>

text \<open>
  \<^verbatim>\<open>normpath\<close>: the loop over the components keeps a stack \<^verbatim>\<open>new_comps\<close>;
  \<^verbatim>\<open>initial_slashes\<close> is 0, 1 or 2 (exactly two leading slashes are kept).
\<close>

definition initial_slashes :: "string \<Rightarrow> nat" where
  "initial_slashes path =
     (if prefix [slash] path
      then (if prefix [slash, slash] path \<and> \<not> prefix [slash, slash, slash] path then 2 else 1)
      else 0)"

definition norm_step :: "nat \<Rightarrow> string list \<Rightarrow> string \<Rightarrow> string list" where
  "norm_step ini new_comps cmp =
     (if cmp = [] \<or> cmp = [dot] then new_comps
      else if cmp \<noteq> [dot, dot] \<or> (ini = 0 \<and> new_comps = [])
              \<or> (new_comps \<noteq> [] \<and> last new_comps = [dot, dot])
      then new_comps @ [cmp]
      else if new_comps \<noteq> [] then butlast new_comps
      else new_comps)"

definition normpath :: "string \<Rightarrow> string" where
  "normpath path =
     (if path = [] then [dot]
      else
        let ini = initial_slashes path;
            comps = foldl (norm_step ini) [] (split_on slash path);
            p = replicate ini slash @ join_with slash comps
        in if p = [] then [dot] else p)"

text \<open>\<^verbatim>\<open>dirname\<close>: everything up to the last slash, trailing slashes stripped unless
  the head consists of slashes only.\<close>

definition dirname :: "string \<Rightarrow> string" where
  "dirname p =
     (let head = rev (dropWhile (\<lambda>c. c \<noteq> slash) (rev p))
      in if head \<noteq> [] \<and> head \<noteq> replicate (length head) slash
         then rev (dropWhile (\<lambda>c. c = slash) (rev head))
         else head)"

text \<open>\<^verbatim>\<open>join(a, b)\<close> with two arguments.\<close>

definition path_join :: "string \<Rightarrow> string \<Rightarrow> string" where
  "path_join a b =
     (if prefix [slash] b then b
      else if a = [] \<or> suffix [slash] a then a @ b
      else a @ slash # b)"

text \<open>\<^verbatim>\<open>abspath\<close>; the current directory of the process is a parameter.\<close>

definition abspath :: "string \<Rightarrow> string \<Rightarrow> string" where
  "abspath cwd path = normpath (if prefix [slash] path then path else path_join cwd path)"

text \<open>\<^verbatim>\<open>commonprefix\<close> of two component lists: their longest common prefix.\<close>

fun commonprefix :: "string list \<Rightarrow> string list \<Rightarrow> string list" where
  "commonprefix (x # xs) (y # ys) = (if x = y then x # commonprefix xs ys else [])"
| "commonprefix _ _ = []"

text \<open>\<^verbatim>\<open>relpath(path, start)\<close>; raises \<^verbatim>\<open>ValueError\<close> on an empty \<^verbatim>\<open>path\<close>.\<close>

definition relpath :: "string \<Rightarrow> string \<Rightarrow> string \<Rightarrow> error + string" where
  "relpath cwd path start =
     (if path = [] then Inl ValueError
      else
        let start_list = filter (\<lambda>x. x \<noteq> []) (split_on slash (abspath cwd start));
            path_list = filter (\<lambda>x. x \<noteq> []) (split_on slash (abspath cwd path));
            i = length (commonprefix start_list path_list);
            rel_list = replicate (length start_list - i) [dot, dot] @ drop i path_list
        in if rel_list = [] then Inr [dot] else Inr (join_with slash rel_list))"

subsection \<open>The regular expressions\<close>

text \<open>
  \<^verbatim>\<open>re.sub(r'\.js$', '.ts', s)\<close> and \<^verbatim>\<open>re.sub(r'\.ts$', '.js', s)\<close>: without
  \<^verbatim>\<open>re.MULTILINE\<close> the \<^verbatim>\<open>$\<close> matches at the end of the string and just before a
  newline that is its last character.
\<close>

definition re_sub_end :: "string \<Rightarrow> string \<Rightarrow> string \<Rightarrow> string" where
  "re_sub_end pat rep s =
     (if suffix pat s then take (length s - length pat) s @ rep
      else if suffix (pat @ [newline]) s
      then take (length s - length pat - 1) s @ rep @ [newline]
      else s)"

section \<open>The script's functions\<close>

type_synonym moves = "(string \<times> string) list"

text \<open>\<^verbatim>\<open>moves.get(k, d)\<close> on the dictionary, kept as an association list in insertion order.\<close>

definition dict_get :: "('k \<times> 'v) list \<Rightarrow> 'k \<Rightarrow> 'v \<Rightarrow> 'v" where
  "dict_get d k dflt = (case map_of d k of None \<Rightarrow> dflt | Some v \<Rightarrow> v)"

definition new_path_of :: "string \<Rightarrow> moves \<Rightarrow> string" where
  "new_path_of abs_path moves = dict_get moves (normpath abs_path) (normpath abs_path)"

definition resolve_import :: "string \<Rightarrow> string \<Rightarrow> string" where
  "resolve_import from_file import_path =
     (let from_dir = dirname from_file;
          ts_path = re_sub_end ''.js'' ''.ts'' import_path
      in normpath (path_join from_dir ts_path))"

definition make_relative :: "string \<Rightarrow> string \<Rightarrow> string \<Rightarrow> error + string" where
  "make_relative cwd from_file to_file =
     (let from_dir = dirname from_file
      in case relpath cwd to_file from_dir of
           Inl e \<Rightarrow> Inl e
         | Inr r \<Rightarrow>
             (let rel = str_replace [backslash] [slash] r;
                  rel = re_sub_end ''.ts'' ''.js'' rel
              in Inr (if \<not> prefix [dot] rel then ''./'' @ rel else rel)))"
definition proper :: "string \<Rightarrow> bool" where
  "proper c \<longleftrightarrow> c \<noteq> [] \<and> slash \<notin> set c \<and> c \<noteq> [dot] \<and> c \<noteq> [dot, dot]"

definition root :: "nat \<Rightarrow> string" where "root r = replicate r slash"

definition seg :: "string \<Rightarrow> bool" where
  "seg x \<longleftrightarrow> x \<noteq> [] \<and> slash \<notin> set x"

definition is_norm_abs :: "string \<Rightarrow> bool" where
  "is_norm_abs p \<longleftrightarrow> prefix [slash] p \<and> normpath p = p"

definition rel_list :: "string list \<Rightarrow> string list \<Rightarrow> string list" where
  "rel_list ds ts = replicate (length ds - length (commonprefix ds ts)) [dot, dot]
                    @ drop (length (commonprefix ds ts)) ts"


text \<open>
  A path the round trip is proved for: absolute, a fixed point of \<^verbatim>\<open>normpath\<close>, with
  \<open>r\<close> leading slashes, ending in the source suffix and without a backslash.
\<close>

definition ts_path :: "nat \<Rightarrow> string \<Rightarrow> bool" where
  "ts_path r p \<longleftrightarrow>
     is_norm_abs p \<and> initial_slashes p = r \<and> suffix ''.ts'' p \<and> backslash \<notin> set p"


subsection \<open>The import pattern\<close>

text \<open>
  \<^verbatim>\<open>from "(\.\.?/[^"]+\.js)"\<close>, matched at the start of a string the way the
  backtracking engine does it.  \<^verbatim>\<open>[^"]+\<close> is greedy: it first takes the whole run of
  characters other than the double quote and then gives them back one at a time until
  \<^verbatim>\<open>\.js"\<close> follows; \<^verbatim>\<open>\.?\<close> first tries to take a dot and falls back to taking
  nothing.  \<open>backtrack n s\<close> is the number of characters \<^verbatim>\<open>[^"]+\<close> ends up with, trying
  \<open>n\<close>, \<open>n - 1\<close>, ..., \<open>1\<close>.
\<close>

definition from_kw :: string where
  "from_kw = ''from '' @ [dquote]"

definition js_quote :: string where
  "js_quote = ''.js'' @ [dquote]"

fun backtrack :: "nat \<Rightarrow> string \<Rightarrow> nat option" where
  "backtrack 0 s = None"
| "backtrack (Suc n) s = (if prefix js_quote (drop (Suc n) s) then Some (Suc n) else backtrack n s)"

text \<open>\<^verbatim>\<open>/[^"]+\.js"\<close> at the start of \<open>s\<close>: the number of characters matched.\<close>

definition match_tail :: "string \<Rightarrow> nat option" where
  "match_tail s =
     (case s of
        [] \<Rightarrow> None
      | c # v \<Rightarrow>
          if c = slash
          then map_option (\<lambda>n. 1 + n + 4) (backtrack (length (takeWhile (\<lambda>x. x \<noteq> dquote) v)) v)
          else None)"

text \<open>\<^verbatim>\<open>\.\.?/[^"]+\.js"\<close> at the start of \<open>s\<close>: the number of characters matched.\<close>

definition match_path :: "string \<Rightarrow> nat option" where
  "match_path s =
     (case s of
        [] \<Rightarrow> None
      | c # t \<Rightarrow>
          if c \<noteq> dot then None
          else (case (if prefix [dot] t then match_tail (drop 1 t) else None) of
                  Some n \<Rightarrow> Some (2 + n)
                | None \<Rightarrow> map_option (\<lambda>n. 1 + n) (match_tail t)))"

text \<open>
  The whole pattern at the start of \<open>s\<close>: group 1 and the end offset of the match
  (\<^verbatim>\<open>m.group(1)\<close>, \<^verbatim>\<open>m.end()\<close>); group 0 is the first \<^verbatim>\<open>m.end()\<close> characters.
\<close>

definition match_import :: "string \<Rightarrow> (string \<times> nat) option" where
  "match_import s =
     (if prefix from_kw s
      then (case match_path (drop 6 s) of
              None \<Rightarrow> None
            | Some n \<Rightarrow> Some (take (n - 1) (drop 6 s), 6 + n))
      else None)"

text \<open>
  \<^verbatim>\<open>re.sub(pattern, repl, content)\<close> with a function \<^verbatim>\<open>repl\<close>: the matches are found
  from the left and do not overlap; the callback gets group 0 and group 1, and an exception
  it raises ends the substitution.
\<close>

fun re_sub_import :: "(string \<Rightarrow> string \<Rightarrow> error + string) \<Rightarrow> string \<Rightarrow> error + string" where
  "re_sub_import repl [] = Inr []"
| "re_sub_import repl (c # cs) =
     (case match_import (c # cs) of
        Some (g1, e) \<Rightarrow>
          (case repl (take e (c # cs)) g1 of
             Inl err \<Rightarrow> Inl err
           | Inr out \<Rightarrow>
               (case re_sub_import repl (drop (e - 1) cs) of
                  Inl err \<Rightarrow> Inl err
                | Inr t \<Rightarrow> Inr (out @ t)))
      | None \<Rightarrow>
          (case re_sub_import repl cs of
             Inl err \<Rightarrow> Inl err
           | Inr t \<Rightarrow> Inr (c # t)))"

text \<open>\<^verbatim>\<open>re.findall(pattern, content)\<close>: group 1 of every match, the import references of a file.\<close>

fun find_imports :: "string \<Rightarrow> string list" where
  "find_imports [] = []"
| "find_imports (c # cs) =
     (case match_import (c # cs) of
        Some (g1, e) \<Rightarrow> g1 # find_imports (drop (e - 1) cs)
      | None \<Rightarrow> find_imports cs)"

subsection \<open>\<^verbatim>\<open>replace_import\<close> and the rewrite of one file\<close>

definition replace_import ::
  "string \<Rightarrow> moves \<Rightarrow> string \<Rightarrow> string \<Rightarrow> string \<Rightarrow> string \<Rightarrow> error + string" where
  "replace_import cwd moves old new group0 import_path =
     (let target_abs = resolve_import old import_path;
          new_target = new_path_of target_abs moves
      in case make_relative cwd new new_target of
           Inl e \<Rightarrow> Inl e
         | Inr new_rel \<Rightarrow> Inr (str_replace import_path new_rel group0))"

text \<open>Line 49: the new content of the file \<open>old_abs\<close>.\<close>

definition rewrite_imports :: "string \<Rightarrow> moves \<Rightarrow> string \<Rightarrow> string \<Rightarrow> error + string" where
  "rewrite_imports cwd moves old_abs content =
     re_sub_import (replace_import cwd moves old_abs (new_path_of old_abs moves)) content"

subsection \<open>The run\<close>

text \<open>
  The file system is a map from paths to the bytes of the files; everything the run does
  to the outside is also recorded, in order, as a list of events.  What the script cannot
  decide itself is
  a parameter: the directory listing of \<^verbatim>\<open>os.walk(BASE)\<close>, whether \<^verbatim>\<open>os.makedirs\<close> and
  \<^verbatim>\<open>open(..., 'w')\<close> succeed, and what \<^verbatim>\<open>git mv\<close> does (\<open>None\<close>: a non-zero exit status).
\<close>

type_synonym fs = "string \<Rightarrow> string option"

datatype event =
    MakeDirs string
  | GitMv string string
  | WriteFile string string
  | Print string

record world =
  files :: fs
  events :: "event list"

record env =
  base :: string
  getcwd :: string
  walk :: "(string \<times> string list) list"
  makedirs_ok :: "string \<Rightarrow> fs \<Rightarrow> bool"
  git_mv :: "string \<Rightarrow> string \<Rightarrow> fs \<Rightarrow> fs option"
  write_ok :: "string \<Rightarrow> fs \<Rightarrow> bool"

type_synonym updates = "(string \<times> string \<times> string) list"

text \<open>Lines 24 to 26; \<^verbatim>\<open>d[k] = v\<close> keeps the position of a key that is already there.\<close>

definition normalize_moves :: "(string \<times> string) list \<Rightarrow> moves" where
  "normalize_moves moves_raw =
     foldl (\<lambda>m (old, new). AList.update (normpath old) (normpath new) m) [] moves_raw"

text \<open>Lines 29 to 33.\<close>

definition collect_files :: "(string \<times> string list) list \<Rightarrow> string list" where
  "collect_files walked =
     concat (map (\<lambda>(root_dir, names).
                    map (\<lambda>f. normpath (path_join root_dir f))
                        (filter (\<lambda>f. suffix ''.ts'' f \<and> \<not> suffix ''.d.ts'' f) names))
                 walked)"

subsection \<open>Reading a file as text\<close>

text \<open>
  \<^verbatim>\<open>open(path, 'r', encoding='utf-8').read()\<close> (lines 39 and 40) decodes the bytes of the
  file and, \<^verbatim>\<open>newline\<close> being left at its default, translates every line ending to a line
  feed.  The decoder is strict: it accepts the well-formed sequences of one to four bytes
  (no overlong form, no surrogate, nothing above \<^verbatim>\<open>U+10FFFF\<close>) and raises
  \<^verbatim>\<open>UnicodeDecodeError\<close> on anything else.
\<close>

definition byte_in :: "nat \<Rightarrow> nat \<Rightarrow> char \<Rightarrow> bool" where
  "byte_in lo hi c \<longleftrightarrow> lo \<le> of_char c \<and> of_char c \<le> hi"

fun utf8_valid :: "string \<Rightarrow> bool" where
  "utf8_valid [] = True"
| "utf8_valid (a # s) =
     (if byte_in 0x00 0x7F a then utf8_valid s
      else if byte_in 0xC2 0xDF a then
        (case s of
           b # t \<Rightarrow> byte_in 0x80 0xBF b \<and> utf8_valid t
         | _ \<Rightarrow> False)
      else if byte_in 0xE0 0xEF a then
        (case s of
           b # c # t \<Rightarrow>
             byte_in (if byte_in 0xE0 0xE0 a then 0xA0 else 0x80)
                     (if byte_in 0xED 0xED a then 0x9F else 0xBF) b
             \<and> byte_in 0x80 0xBF c \<and> utf8_valid t
         | _ \<Rightarrow> False)
      else if byte_in 0xF0 0xF4 a then
        (case s of
           b # c # d # t \<Rightarrow>
             byte_in (if byte_in 0xF0 0xF0 a then 0x90 else 0x80)
                     (if byte_in 0xF4 0xF4 a then 0x8F else 0xBF) b
             \<and> byte_in 0x80 0xBF c \<and> byte_in 0x80 0xBF d \<and> utf8_valid t
         | _ \<Rightarrow> False)
      else False)"

text \<open>
  Universal newlines: \<^verbatim>\<open>\r\n\<close> and a \<^verbatim>\<open>\r\<close> on its own both become \<^verbatim>\<open>\n\<close>.
\<close>

fun translate_newlines :: "string \<Rightarrow> string" where
  "translate_newlines [] = []"
| "translate_newlines [c] = (if c = cr then [newline] else [c])"
| "translate_newlines (c # d # s) =
     (if c = cr \<and> d = newline then newline # translate_newlines s
      else if c = cr then newline # translate_newlines (d # s)
      else c # translate_newlines (d # s))"

text \<open>A path that is not a file of the disk cannot be opened.\<close>

definition read_text :: "fs \<Rightarrow> string \<Rightarrow> error + string" where
  "read_text disk path =
     (case disk path of
        None \<Rightarrow> Inl (FileNotFoundError path)
      | Some bytes \<Rightarrow>
          if utf8_valid bytes then Inr (translate_newlines bytes)
          else Inl (UnicodeDecodeError path))"

text \<open>Lines 36 to 51, the loop with \<^verbatim>\<open>updates\<close> as accumulator.\<close>

fun compute_updates :: "string \<Rightarrow> moves \<Rightarrow> fs \<Rightarrow> string list \<Rightarrow> updates \<Rightarrow> error + updates" where
  "compute_updates cwd moves disk [] upd = Inr upd"
| "compute_updates cwd moves disk (old_abs # rest) upd =
     (let new_abs = new_path_of old_abs moves
      in case read_text disk old_abs of
           Inl e \<Rightarrow> Inl e
         | Inr content \<Rightarrow>
             (case re_sub_import (replace_import cwd moves old_abs new_abs) content of
                Inl e \<Rightarrow> Inl e
              | Inr new_content \<Rightarrow>
                  compute_updates cwd moves disk rest
                    (if new_content \<noteq> content \<or> old_abs \<noteq> new_abs
                     then AList.update old_abs (new_abs, new_content) upd
                     else upd)))"

text \<open>Lines 55 to 59, the loop over \<^verbatim>\<open>sorted(moves.keys())\<close>.\<close>

definition log :: "event \<Rightarrow> world \<Rightarrow> world" where
  "log e w = w\<lparr>events := events w @ [e]\<rparr>"

fun apply_moves :: "env \<Rightarrow> moves \<Rightarrow> string \<Rightarrow> string list \<Rightarrow> world \<Rightarrow> error option \<times> world" where
  "apply_moves en moves repo_root [] w = (None, w)"
| "apply_moves en moves repo_root (old_abs # rest) w =
     (case map_of moves old_abs of
        None \<Rightarrow> (Some (KeyError old_abs), w)
      | Some new_abs \<Rightarrow>
          (let w1 = log (MakeDirs (dirname new_abs)) w
           in if \<not> makedirs_ok en (dirname new_abs) (files w1) then (Some (OSError (dirname new_abs)), w1)
              else
                (let w2 = log (GitMv old_abs new_abs) w1
                 in case git_mv en old_abs new_abs (files w2) of
                      None \<Rightarrow> (Some (CalledProcessError old_abs new_abs), w2)
                    | Some disk \<Rightarrow>
                        (let w3 = w2\<lparr>files := disk\<rparr>
                         in case relpath (getcwd en) old_abs repo_root of
                              Inl e \<Rightarrow> (Some e, w3)
                            | Inr rel_old \<Rightarrow>
                                (case relpath (getcwd en) new_abs repo_root of
                                   Inl e \<Rightarrow> (Some e, w3)
                                 | Inr rel_new \<Rightarrow>
                                     apply_moves en moves repo_root rest
                                       (log (Print (''  git mv '' @ rel_old @ '' -> '' @ rel_new)) w3))))))"

text \<open>
  Lines 62 to 66.  \<^verbatim>\<open>open(path, 'w', encoding='utf-8')\<close> writes the encoding of the text and
  leaves its line feeds as they are.
\<close>

fun flush_updates :: "env \<Rightarrow> string \<Rightarrow> updates \<Rightarrow> world \<Rightarrow> error option \<times> world" where
  "flush_updates en repo_root [] w = (None, w)"
| "flush_updates en repo_root ((old_abs, new_abs, new_content) # rest) w =
     (if \<not> write_ok en new_abs (files w) then (Some (OSError new_abs), w)
      else
        (let w1 = log (WriteFile new_abs new_content) (w\<lparr>files := (files w)(new_abs \<mapsto> new_content)\<rparr>)
         in if old_abs = new_abs
            then (case relpath (getcwd en) new_abs repo_root of
                    Inl e \<Rightarrow> (Some e, w1)
                  | Inr rel \<Rightarrow>
                      flush_updates en repo_root rest (log (Print (''  updated imports in '' @ rel)) w1))
            else flush_updates en repo_root rest w1))"

text \<open>\<^verbatim>\<open>str(n)\<close> for a natural number.\<close>

fun str_nat :: "nat \<Rightarrow> string" where
  "str_nat n = (if n < 10 then [char_of (48 + n)] else str_nat (n div 10) @ [char_of (48 + n mod 10)])"

definition summary :: "nat \<Rightarrow> nat \<Rightarrow> string" where
  "summary moved updated =
     newline # ''Moved '' @ str_nat moved @ '' files, updated imports in '' @ str_nat updated @ '' files.''"

definition run :: "env \<Rightarrow> (string \<times> string) list \<Rightarrow> world \<Rightarrow> error option \<times> world" where
  "run en moves_raw w =
     (let moves = normalize_moves moves_raw;
          all_files = collect_files (walk en)
      in case compute_updates (getcwd en) moves (files w) all_files [] of
           Inl e \<Rightarrow> (Some e, w)
         | Inr upd \<Rightarrow>
             (let repo_root = dirname (base en)
              in case apply_moves en moves repo_root (sort (map fst moves)) w of
                   (Some e, w1) \<Rightarrow> (Some e, w1)
                 | (None, w1) \<Rightarrow>
                     (case flush_updates en repo_root upd w1 of
                        (Some e, w2) \<Rightarrow> (Some e, w2)
                      | (None, w2) \<Rightarrow>
                          (None, log (Print (summary (length moves) (length upd))) w2))))"

text \<open>
  Lines 71 to 73: the command line gives the mapping relative to \<^verbatim>\<open>BASE\<close>.  The
  comprehension of line 72 builds a dictionary, so of two entries whose joined origins are
  equal the later one wins, at the position of the earlier one.
\<close>

definition join_base :: "string \<Rightarrow> (string \<times> string) list \<Rightarrow> (string \<times> string) list" where
  "join_base b moves_json =
     foldl (\<lambda>m (k, v). AList.update (path_join b k) (path_join b v) m) [] moves_json"

definition main :: "env \<Rightarrow> (string \<times> string) list \<Rightarrow> world \<Rightarrow> error option \<times> world" where
  "main en moves_json w = run en (join_base (base en) moves_json) w"


subsection \<open>Notions used to state the properties\<close>

text \<open>The updates mapping that a run computes before it touches anything (lines 36 to 51).\<close>

definition planned_updates :: "env \<Rightarrow> (string \<times> string) list \<Rightarrow> world \<Rightarrow> error + updates" where
  "planned_updates en moves_raw w =
     compute_updates (getcwd en) (normalize_moves moves_raw) (files w) (collect_files (walk en)) []"

text \<open>The entry that one pass of the loop body stores for the file \<open>k\<close>, if it stores one.\<close>

definition update_entry :: "string \<Rightarrow> moves \<Rightarrow> fs \<Rightarrow> string \<Rightarrow> (string \<times> string) option" where
  "update_entry cwd moves disk k =
     (case read_text disk k of
        Inl e \<Rightarrow> None
      | Inr content \<Rightarrow>
          (case rewrite_imports cwd moves k content of
             Inl e \<Rightarrow> None
           | Inr new_content \<Rightarrow>
               if new_content \<noteq> content \<or> k \<noteq> new_path_of k moves
               then Some (new_path_of k moves, new_content)
               else None))"

text \<open>
  The strings group 1 of the import pattern can hold: \<^verbatim>\<open>./\<close> or \<^verbatim>\<open>../\<close>, then at least
  one character, then \<^verbatim>\<open>.js\<close>, without a double quote.
\<close>

definition import_body :: "string \<Rightarrow> bool" where
  "import_body b \<longleftrightarrow> dquote \<notin> set b \<and> suffix ''.js'' b \<and> 4 \<le> length b"

definition import_shaped :: "string \<Rightarrow> bool" where
  "import_shaped g \<longleftrightarrow>
     (prefix ''./'' g \<and> import_body (drop 2 g)) \<or> (prefix ''../'' g \<and> import_body (drop 3 g))"

fun is_write :: "event \<Rightarrow> bool" where
  "is_write (WriteFile p c) = True"
| "is_write e = False"

fun is_git_mv :: "event \<Rightarrow> bool" where
  "is_git_mv (GitMv a b) = True"
| "is_git_mv e = False"

text \<open>
  Modelled from the spec: \<^verbatim>\<open>git mv\<close>, the history-preserving move, which is not part of
  the script.  It relocates the file and fails when the origin does not exist or the
  destination already does.  Used for the concrete scenarios only; the general theorems
  hold for every behaviour of \<^verbatim>\<open>git mv\<close>.
\<close>

definition relocate :: "string \<Rightarrow> string \<Rightarrow> fs \<Rightarrow> fs option" where
  "relocate old new disk =
     (if disk old = None \<or> disk new \<noteq> None then None
      else Some ((disk(old := None))(new := disk old)))"

text \<open>
  A concrete environment and starting state for the scenarios: the script lives in
  \<^verbatim>\<open>/r\<close>, so \<^verbatim>\<open>BASE\<close> is \<^verbatim>\<open>/r/src\<close>; directories can always be created and files
  written; \<^verbatim>\<open>git mv\<close> relocates.
\<close>

definition always_ok :: "string \<Rightarrow> fs \<Rightarrow> bool" where
  "always_ok p disk = True"

definition scenario_env :: "(string \<times> string list) list \<Rightarrow> env" where
  "scenario_env walked =
     \<lparr>base = ''/r/src'', getcwd = ''/r'', walk = walked,
      makedirs_ok = always_ok, git_mv = relocate, write_ok = always_ok\<rparr>"

definition scenario_world :: "(string \<times> string) list \<Rightarrow> world" where
  "scenario_world contents = \<lparr>files = map_of contents, events = []\<rparr>"

text \<open>\<^verbatim>\<open>import <what> from "<path>";\<close> followed by a newline.\<close>

definition import_line :: "string \<Rightarrow> string \<Rightarrow> string" where
  "import_line what path = ''import '' @ what @ '' from '' @ [dquote] @ path @ [dquote] @ '';'' @ [newline]"

text \<open>The inputs of the scenarios.\<close>

definition two_files_env :: env where
  "two_files_env = scenario_env [(''/r/src'', [''a.ts'', ''b.ts''])]"

definition two_files_world :: world where
  "two_files_world =
     scenario_world [(''/r/src/a.ts'', import_line ''{ b }'' ''./b.js''),
                     (''/r/src/b.ts'', import_line ''{ a }'' ''./a.js'')]"

definition lone_file_env :: env where
  "lone_file_env = scenario_env [(''/r/src'', [''a.ts''])]"

definition lone_file_world :: world where
  "lone_file_world = scenario_world [(''/r/src/a.ts'', import_line ''fs'' ''node:fs'')]"

text \<open>The same file with a line ending of two bytes, \<^verbatim>\<open>\r\n\<close>.\<close>

definition crlf_line :: "string \<Rightarrow> string \<Rightarrow> string" where
  "crlf_line what path =
     ''import '' @ what @ '' from '' @ [dquote] @ path @ [dquote] @ '';'' @ [cr, newline]"

definition crlf_file_world :: world where
  "crlf_file_world = scenario_world [(''/r/src/a.ts'', crlf_line ''fs'' ''node:fs'')]"




definition three_moves :: "(string \<times> string) list" where
  "three_moves =
     [(''/r/src/a.ts'', ''/r/src/sub/a.ts''),
      (''/r/src/d.ts'', ''/r/src/sub/d.ts''),
      (''/r/src/c.ts'', ''/r/src/sub/c.ts'')]"

lemma split_on_nonempty: "split_on c s \<noteq> []"
  by (induction s) (auto split: list.splits)

lemma split_on_no_sep: "w \<in> set (split_on c s) \<Longrightarrow> c \<notin> set w"
  by (induction s arbitrary: w) (auto split: list.splits if_splits)

lemma split_on_plain: "c \<notin> set w \<Longrightarrow> split_on c w = [w]"
  by (induction w) auto

lemma split_on_append: "c \<notin> set w \<Longrightarrow> split_on c (w @ c # s) = w # split_on c s"
  by (induction w) auto

lemma split_on_join:
  "ws \<noteq> [] \<Longrightarrow> \<forall>w \<in> set ws. c \<notin> set w \<Longrightarrow> split_on c (join_with c ws) = ws"
  by (induction c ws rule: join_with.induct) (auto simp: split_on_plain split_on_append)

lemma join_with_snoc:
  "join_with c (ws @ [w]) = (if ws = [] then w else join_with c ws @ c # w)"
  by (induction c ws rule: join_with.induct) auto

lemma join_with_append:
  "us \<noteq> [] \<Longrightarrow> vs \<noteq> [] \<Longrightarrow> join_with c (us @ vs) = join_with c us @ c # join_with c vs"
  by (induction c us rule: join_with.induct) (auto, (cases vs; simp))

lemma join_split: "join_with c (split_on c s) = s"
proof (induction s)
  case Nil show ?case by simp
next
  case (Cons x xs)
  show ?case
  proof (cases "x = c")
    case True
    obtain w ws where "split_on c xs = w # ws" using split_on_nonempty[of c xs] by (cases "split_on c xs") auto
    then show ?thesis using Cons True by simp
  next
    case False
    obtain w ws where e: "split_on c xs = w # ws" using split_on_nonempty[of c xs] by (cases "split_on c xs") auto
    then show ?thesis using Cons False by (cases ws) auto
  qed
qed

lemma norm_step_proper: "proper c \<Longrightarrow> norm_step ini acc c = acc @ [c]"
  by (simp add: norm_step_def proper_def)

lemma norm_step_dot [simp]: "norm_step ini acc [dot] = acc" "norm_step ini acc [] = acc"
  by (simp_all add: norm_step_def)

lemma norm_step_pop: "proper d \<Longrightarrow> norm_step ini (acc @ [d]) [dot, dot] = acc"
  by (simp add: norm_step_def proper_def)

lemma fold_proper: "list_all proper cs \<Longrightarrow> foldl (norm_step ini) acc cs = acc @ cs"
  by (induction cs arbitrary: acc) (simp_all add: norm_step_proper)

lemma fold_dotdots:
  "list_all proper ds \<Longrightarrow> foldl (norm_step ini) (acc @ ds) (replicate (length ds) [dot, dot]) = acc"
proof (induction ds rule: rev_induct)
  case Nil show ?case by simp
next
  case (snoc d ds)
  then have "proper d" "list_all proper ds" by simp_all
  then show ?case using snoc.IH
    by (simp add: norm_step_pop[of d ini "acc @ ds", simplified])
qed

lemma fold_inv:
  "ini \<noteq> 0 \<Longrightarrow> list_all proper acc \<Longrightarrow> \<forall>x \<in> set xs. slash \<notin> set x \<Longrightarrow>
   list_all proper (foldl (norm_step ini) acc xs)"
proof (induction xs arbitrary: acc)
  case Nil then show ?case by simp
next
  case (Cons x xs)
  have "list_all proper (norm_step ini acc x)"
  proof (cases "proper x")
    case True then show ?thesis using Cons.prems by (simp add: norm_step_proper)
  next
    case False
    then consider "x = []" | "x = [dot]" | "x = [dot, dot]" using Cons.prems(3) by (auto simp: proper_def)
    then show ?thesis
    proof cases
      case 3
      show ?thesis
      proof (cases acc rule: rev_cases)
        case Nil then show ?thesis using 3 Cons.prems by (simp add: norm_step_def)
      next
        case (snoc as a)
        then have "proper a" "list_all proper as" using Cons.prems by simp_all
        then show ?thesis using 3 snoc by (simp add: norm_step_pop)
      qed
    qed (use Cons.prems in simp_all)
  qed
  then show ?case using Cons by simp
qed

lemma join_proper_hd:
  "list_all proper cs \<Longrightarrow> \<not> prefix [slash] (join_with slash cs @ s) \<or> cs = []"
  by (induction slash cs rule: join_with.induct) (auto simp: proper_def neq_Nil_conv)

lemma proper_seg: "proper c \<Longrightarrow> seg c" by (simp add: proper_def seg_def)

lemma list_all_proper_seg: "list_all proper cs \<Longrightarrow> list_all seg cs"
  by (induction cs) (auto simp: proper_seg)

lemma split_root: "split_on slash (replicate r slash @ s) = replicate r [] @ split_on slash s"
  by (induction r) auto

lemma fold_empties: "foldl (norm_step ini) acc (replicate r []) = acc"
  by (induction r) auto

lemma join_seg_hd:
  "list_all seg cs \<Longrightarrow> \<not> prefix [slash] (join_with slash cs @ s) \<or> cs = []"
  by (induction slash cs rule: join_with.induct) (auto simp: seg_def neq_Nil_conv)

lemma split_join_seg:
  "list_all seg cs \<Longrightarrow> split_on slash (join_with slash cs) = (if cs = [] then [[]] else cs)"
  by (auto simp: split_on_join list_all_iff seg_def)

lemma initial_slashes_root:
  assumes "r = 1 \<or> r = 2" "list_all seg cs"
  shows "initial_slashes (root r @ join_with slash cs) = r"
proof -
  have n: "\<not> prefix [slash] (join_with slash cs) \<or> cs = []"
    using join_seg_hd[OF assms(2), of "[]"] by simp
  from assms(1) show ?thesis
  proof
    assume "r = 1"
    then show ?thesis using n by (auto simp: initial_slashes_def root_def)
  next
    assume "r = 2"
    then show ?thesis using n by (auto simp: initial_slashes_def root_def numeral_2_eq_2)
  qed
qed

lemma normpath_root_join:
  assumes "r = 1 \<or> r = 2" "list_all seg cs"
  shows "normpath (root r @ join_with slash cs)
         = root r @ join_with slash (foldl (norm_step r) [] cs)"
proof -
  let ?p = "root r @ join_with slash cs"
  have r0: "r \<noteq> 0" using assms(1) by auto
  have ne: "?p \<noteq> []" using assms(1) by (auto simp: root_def)
  have ini: "initial_slashes ?p = r" by (rule initial_slashes_root[OF assms])
  have sp: "split_on slash ?p = replicate r [] @ (if cs = [] then [[]] else cs)"
    by (simp add: root_def split_root split_join_seg[OF assms(2)])
  have fo: "foldl (norm_step r) [] (split_on slash ?p) = foldl (norm_step r) [] cs"
    by (simp add: sp fold_empties)
  have ne2: "replicate r slash @ join_with slash (foldl (norm_step r) [] cs) \<noteq> []"
    using assms(1) by auto
  show ?thesis
    unfolding normpath_def using ne ini fo ne2 r0 by (simp add: Let_def root_def)
qed

lemma normpath_abs_fixed:
  assumes "r = 1 \<or> r = 2" "list_all proper cs"
  shows "normpath (root r @ join_with slash cs) = root r @ join_with slash cs"
  using normpath_root_join[OF assms(1) list_all_proper_seg[OF assms(2)]]
  by (simp add: fold_proper[OF assms(2)])

lemma initial_slashes_cases: "prefix [slash] p \<Longrightarrow> initial_slashes p = 1 \<or> initial_slashes p = 2"
  by (simp add: initial_slashes_def)

lemma norm_abs_shape:
  assumes "is_norm_abs p"
  obtains cs where "list_all proper cs" "p = root (initial_slashes p) @ join_with slash cs"
proof -
  let ?r = "initial_slashes p"
  let ?cs = "foldl (norm_step ?r) [] (split_on slash p)"
  from assms have pre: "prefix [slash] p" and fx: "normpath p = p" by (simp_all add: is_norm_abs_def)
  have r: "?r = 1 \<or> ?r = 2" using pre by (rule initial_slashes_cases)
  then have r0: "?r \<noteq> 0" by auto
  have "list_all proper ?cs"
    by (rule fold_inv[OF r0]) (auto dest: split_on_no_sep)
  moreover have "p \<noteq> []" using pre by auto
  then have "normpath p = root ?r @ join_with slash ?cs"
    using r by (auto simp: normpath_def Let_def root_def)
  ultimately show ?thesis using that fx by metis
qed

lemma join_seg_last:
  "list_all seg cs \<Longrightarrow> cs \<noteq> [] \<Longrightarrow> join_with slash cs \<noteq> [] \<and> last (join_with slash cs) \<noteq> slash"
  by (induction slash cs rule: join_with.induct) (auto simp: seg_def dest: last_in_set)

lemma dirname_split:
  assumes "slash \<notin> set n" "pre = [] \<or> last pre = slash"
  shows "rev (dropWhile (\<lambda>c. c \<noteq> slash) (rev (pre @ n))) = pre"
proof -
  have "dropWhile (\<lambda>c. c \<noteq> slash) (rev n @ rev pre) = dropWhile (\<lambda>c. c \<noteq> slash) (rev pre)"
    using assms(1) by (intro dropWhile_append2) auto
  also have "\<dots> = rev pre"
    using assms(2) by (cases pre rule: rev_cases) auto
  finally show ?thesis by simp
qed

lemma dirname_root_join:
  assumes "list_all seg ds" "seg n"
  shows "dirname (root r @ join_with slash (ds @ [n])) = root r @ join_with slash ds"
proof (cases "ds = []")
  case True
  have "rev (dropWhile (\<lambda>c. c \<noteq> slash) (rev (root r @ n))) = root r"
    using assms(2) by (intro dirname_split) (cases r; auto simp: seg_def root_def)+
  then show ?thesis using True by (simp add: dirname_def Let_def root_def)
next
  case False
  let ?d = "root r @ join_with slash ds"
  have j: "join_with slash ds \<noteq> []" "last (join_with slash ds) \<noteq> slash"
    using join_seg_last[OF assms(1) False] by simp_all
  have p: "root r @ join_with slash (ds @ [n]) = (?d @ [slash]) @ n"
    using False by (simp add: join_with_snoc)
  have h: "rev (dropWhile (\<lambda>c. c \<noteq> slash) (rev ((?d @ [slash]) @ n))) = ?d @ [slash]"
    using assms(2) by (intro dirname_split) (auto simp: seg_def)
  have ns: "?d @ [slash] \<noteq> replicate (length (?d @ [slash])) slash"
  proof
    assume "?d @ [slash] = replicate (length (?d @ [slash])) slash"
    then have "set (?d @ [slash]) \<subseteq> {slash}" by (metis set_replicate_conv_if empty_subsetI subset_refl)
    moreover have "last (join_with slash ds) \<in> set (join_with slash ds)" using j(1) by simp
    ultimately show False using j(2) by auto
  qed
  have st: "rev (dropWhile (\<lambda>c. c = slash) (rev (?d @ [slash]))) = ?d"
  proof -
    obtain b l where bl: "join_with slash ds = b @ [l]" using j(1) by (cases "join_with slash ds" rule: rev_cases) auto
    then have "l \<noteq> slash" using j(2) by simp
    then show ?thesis by (simp add: bl)
  qed
  show ?thesis
    unfolding dirname_def Let_def p h using ns st by simp
qed

lemma path_join_root:
  assumes "list_all seg ds" "list_all seg xs" "xs \<noteq> []" "r \<noteq> 0"
  shows "path_join (root r @ join_with slash ds) (join_with slash xs)
         = root r @ join_with slash (ds @ xs)"
proof -
  have nb: "\<not> prefix [slash] (join_with slash xs)"
    using join_seg_hd[OF assms(2), of "[]"] assms(3) by simp
  show ?thesis
  proof (cases "ds = []")
    case True
    have "root r = replicate (r - 1) slash @ [slash]"
      using assms(4) by (cases r) (simp_all add: root_def replicate_append_same)
    then have "suffix [slash] (root r)" by (metis suffixI)
    then show ?thesis using True nb by (simp add: path_join_def)
  next
    case False
    have j: "join_with slash ds \<noteq> []" "last (join_with slash ds) \<noteq> slash"
      using join_seg_last[OF assms(1) False] by simp_all
    have "\<not> suffix [slash] (root r @ join_with slash ds)"
    proof
      assume "suffix [slash] (root r @ join_with slash ds)"
      then obtain zs where "root r @ join_with slash ds = zs @ [slash]" by (auto simp: suffix_def)
      then have "last (root r @ join_with slash ds) = slash" by simp
      then show False using j by simp
    qed
    then show ?thesis using False nb j assms(3)
      by (simp add: path_join_def join_with_append)
  qed
qed

lemma commonprefix_take:
  "commonprefix xs ys = take (length (commonprefix xs ys)) xs"
  "commonprefix xs ys = take (length (commonprefix xs ys)) ys"
  by (induction xs ys rule: commonprefix.induct) auto

lemma commonprefix_le:
  "length (commonprefix xs ys) \<le> length xs" "length (commonprefix xs ys) \<le> length ys"
  by (induction xs ys rule: commonprefix.induct) auto

lemma comps_of_root_join:
  assumes "list_all seg cs"
  shows "filter (\<lambda>x. x \<noteq> []) (split_on slash (root r @ join_with slash cs)) = cs"
proof -
  have "filter (\<lambda>x. x \<noteq> []) cs = cs" using assms by (induction cs) (auto simp: seg_def)
  then show ?thesis
    by (simp add: root_def split_root split_join_seg[OF assms])
qed

lemma abspath_abs_fixed:
  assumes "r = 1 \<or> r = 2" "list_all proper cs"
  shows "abspath cwd (root r @ join_with slash cs) = root r @ join_with slash cs"
proof -
  have "prefix [slash] (root r @ join_with slash cs)" using assms(1) by (auto simp: root_def numeral_2_eq_2)
  then show ?thesis by (simp add: abspath_def normpath_abs_fixed[OF assms])
qed

lemma relpath_abs:
  assumes "r = 1 \<or> r = 2" "r' = 1 \<or> r' = 2" "list_all proper ds" "list_all proper ts"
  shows "relpath cwd (root r' @ join_with slash ts) (root r @ join_with slash ds)
         = Inr (if rel_list ds ts = [] then [dot] else join_with slash (rel_list ds ts))"
proof -
  have ne: "root r' @ join_with slash ts \<noteq> []" using assms(2) by (auto simp: root_def)
  show ?thesis
    unfolding relpath_def
    using ne
    by (simp add: abspath_abs_fixed[OF assms(1,3)] abspath_abs_fixed[OF assms(2,4)]
        comps_of_root_join[OF list_all_proper_seg[OF assms(3)]]
        comps_of_root_join[OF list_all_proper_seg[OF assms(4)]] Let_def rel_list_def)
qed

lemma str_replace_char: "str_replace [a] [b] s = map (\<lambda>c. if c = a then b else c) s"
  by (induction s) auto

lemma str_replace_absent: "a \<notin> set s \<Longrightarrow> str_replace [a] [b] s = s"
  by (induction s) auto

lemma join_with_last:
  "xs \<noteq> [] \<Longrightarrow> \<exists>p. join_with c xs = p @ last xs"
  by (induction c xs rule: join_with.induct) auto

lemma re_sub_end_round:
  assumes "R \<noteq> []" "suffix ''.ts'' R \<or> last R = dot"
  shows "re_sub_end ''.js'' ''.ts'' (pre @ re_sub_end ''.ts'' ''.js'' R) = pre @ R"
proof (cases "suffix ''.ts'' R")
  case True
  then obtain m where m: "R = m @ ''.ts''" by (auto simp: suffix_def)
  have 1: "re_sub_end ''.ts'' ''.js'' R = m @ ''.js''"
    using True by (simp add: re_sub_end_def m)
  have "suffix ''.js'' (pre @ m @ ''.js'')" by (simp add: suffix_def)
  then have "re_sub_end ''.js'' ''.ts'' (pre @ m @ ''.js'') = pre @ m @ ''.ts''"
    by (simp add: re_sub_end_def)
  then show ?thesis unfolding 1 m[symmetric] using m by simp
next
  case False
  with assms have l: "last R = dot" by simp
  obtain b where b: "R = b @ [dot]" using assms(1) l by (cases R rule: rev_cases) auto
  have 1: "re_sub_end ''.ts'' ''.js'' R = R"
    by (simp add: re_sub_end_def b suffix_def dot_def newline_def)
  have "re_sub_end ''.js'' ''.ts'' (pre @ R) = pre @ R"
    by (simp add: re_sub_end_def b suffix_def dot_def newline_def)
  then show ?thesis by (simp add: 1)
qed

lemma fold_rel_list:
  assumes "list_all proper ds" "list_all proper ts"
  shows "foldl (norm_step r) ds (rel_list ds ts) = ts"
proof -
  let ?c = "commonprefix ds ts"
  let ?i = "length ?c"
  have ds: "ds = ?c @ drop ?i ds" using commonprefix_take(1)[of ds ts] by (metis append_take_drop_id)
  have ts: "ts = ?c @ drop ?i ts" using commonprefix_take(2)[of ds ts] by (metis append_take_drop_id)
  have pd: "list_all proper (drop ?i ds)" using assms(1) by (simp add: list_all_iff) (meson in_set_dropD)
  have pt: "list_all proper (drop ?i ts)" using assms(2) by (simp add: list_all_iff) (meson in_set_dropD)
  have "foldl (norm_step r) (?c @ drop ?i ds) (replicate (length (drop ?i ds)) [dot, dot]) = ?c"
    by (rule fold_dotdots[OF pd])
  then have "foldl (norm_step r) ds (replicate (length ds - ?i) [dot, dot]) = ?c"
    using ds by simp
  then have "foldl (norm_step r) ds (rel_list ds ts) = ?c @ drop ?i ts"
    by (simp add: rel_list_def fold_proper[OF pt])
  then show ?thesis using ts by simp
qed

lemma seg_dots: "seg [dot]" "seg [dot, dot]"
  by (simp_all add: seg_def dot_def slash_def)

lemma rel_list_seg:
  assumes "list_all proper ts"
  shows "list_all seg (rel_list ds ts)"
proof -
  have "list_all seg (drop (length (commonprefix ds ts)) ts)"
    using assms by (simp add: list_all_iff) (meson in_set_dropD proper_seg)
  then show ?thesis by (auto simp: rel_list_def list_all_iff seg_dots)
qed

lemma resolve_rel:
  assumes r: "r = 1 \<or> r = 2"
    and ds: "list_all proper ds" and ts: "list_all proper ts"
    and ys: "ys = rel_list ds ts \<or> ys = [dot] # rel_list ds ts"
    and ne: "ys \<noteq> []"
  shows "normpath (path_join (root r @ join_with slash ds) (join_with slash ys))
         = root r @ join_with slash ts"
proof -
  have sy: "list_all seg ys" using ys rel_list_seg[OF ts, of ds] by (auto simp: seg_dots)
  have r0: "r \<noteq> 0" using r by auto
  have sd: "list_all seg ds" by (rule list_all_proper_seg[OF ds])
  have pj: "path_join (root r @ join_with slash ds) (join_with slash ys)
            = root r @ join_with slash (ds @ ys)"
    by (rule path_join_root[OF sd sy ne r0])
  have sa: "list_all seg (ds @ ys)" using sd sy by simp
  have "foldl (norm_step r) [] (ds @ ys) = foldl (norm_step r) ds ys"
    by (simp add: fold_proper[OF ds])
  also have "\<dots> = foldl (norm_step r) ds (rel_list ds ts)" using ys by auto
  also have "\<dots> = ts" by (rule fold_rel_list[OF ds ts])
  finally show ?thesis by (simp add: pj normpath_root_join[OF r sa])
qed

lemma suffix_after_slash:
  assumes "suffix x (P @ l)" "slash \<notin> set x" "P = [] \<or> last P = slash"
  shows "suffix x l"
proof -
  from assms(1) obtain q where q: "P @ l = q @ x" unfolding suffix_def by blast
  then obtain u where u: "(P = q @ u \<and> u @ l = x) \<or> (P @ u = q \<and> l = u @ x)"
    unfolding append_eq_append_conv2 by blast
  show ?thesis
  proof (cases "P = q @ u \<and> u @ l = x")
    case True
    show ?thesis
    proof (cases "u = []")
      case True
      with \<open>P = q @ u \<and> u @ l = x\<close> show ?thesis by simp
    next
      case False
      then have "last P = last u" "P \<noteq> []" using True by simp_all
      then have "last u = slash" using assms(3) by simp
      then have "slash \<in> set u" using False last_in_set by metis
      then have "slash \<in> set x" using True by auto
      then show ?thesis using assms(2) by simp
    qed
  next
    case False
    with u have "l = u @ x" by blast
    then show ?thesis unfolding suffix_def by blast
  qed
qed

lemma suffix_root_join:
  assumes "suffix x (root r @ join_with slash cs)" "slash \<notin> set x" "x \<noteq> []"
  shows "cs \<noteq> [] \<and> suffix x (last cs)"
proof (cases cs rule: rev_cases)
  case Nil
  then have "suffix x (replicate r slash)" using assms(1) by (simp add: root_def)
  then have "set x \<subseteq> set (replicate r slash)" by (auto simp: suffix_def)
  then have "set x \<subseteq> {slash}" by (auto split: if_splits)
  then show ?thesis using assms(2,3) by (cases x) auto
next
  case (snoc bs l)
  let ?P = "if bs = [] then root r else root r @ join_with slash bs @ [slash]"
  have e: "root r @ join_with slash cs = ?P @ l" using snoc by (simp add: join_with_snoc)
  have "?P = [] \<or> last ?P = slash" by (cases r) (auto simp: root_def)
  then have "suffix x l" using assms(1,2) unfolding e by (rule suffix_after_slash[rotated 2])
  then show ?thesis using snoc by simp
qed

lemma set_join_with: "set (join_with c xs) \<subseteq> (\<Union>x \<in> set xs. set x) \<union> {c}"
  by (induction c xs rule: join_with.induct) auto

lemma set_in_join_with: "x \<in> set xs \<Longrightarrow> set x \<subseteq> set (join_with c xs)"
  by (induction c xs rule: join_with.induct) auto

lemma set_rel_list: "set (rel_list ds ts) \<subseteq> insert [dot, dot] (set ts)"
  by (auto simp: rel_list_def dest: in_set_dropD)

lemma rel_list_last:
  assumes "rel_list ds ts \<noteq> []"
  shows "last (rel_list ds ts) = [dot, dot] \<or> (ts \<noteq> [] \<and> last (rel_list ds ts) = last ts)"
proof (cases "drop (length (commonprefix ds ts)) ts = []")
  case True
  then show ?thesis using assms by (auto simp: rel_list_def)
next
  case False
  then show ?thesis by (auto simp: rel_list_def)
qed

lemma dot_join: "xs \<noteq> [] \<Longrightarrow> [dot, slash] @ join_with slash xs = join_with slash ([dot] # xs)"
  by (cases xs) auto

lemma re_sub_end_facts:
  assumes "R \<noteq> []" "suffix ''.ts'' R \<or> last R = dot"
  shows "re_sub_end ''.ts'' ''.js'' R \<noteq> []
       \<and> (suffix ''.js'' (re_sub_end ''.ts'' ''.js'' R) \<or> last (re_sub_end ''.ts'' ''.js'' R) = dot)
       \<and> set (re_sub_end ''.ts'' ''.js'' R) \<subseteq> set R \<union> set ''.js''"
proof (cases "suffix ''.ts'' R")
  case True
  then obtain m where m: "R = m @ ''.ts''" by (auto simp: suffix_def)
  have 1: "re_sub_end ''.ts'' ''.js'' R = m @ ''.js''"
    using True by (simp add: re_sub_end_def m)
  have "suffix ''.js'' (m @ ''.js'')" by (simp add: suffix_def)
  then show ?thesis unfolding 1 using m by auto
next
  case False
  with assms have l: "last R = dot" by simp
  obtain b where b: "R = b @ [dot]" using assms(1) l by (cases R rule: rev_cases) auto
  have 1: "re_sub_end ''.ts'' ''.js'' R = R"
    by (simp add: re_sub_end_def b suffix_def dot_def newline_def)
  show ?thesis unfolding 1 using assms(1) l by auto
qed

lemma round_trip_comps:
  assumes r: "r = 1 \<or> r = 2"
    and ds: "list_all proper ds" and n: "proper n" and ts: "list_all proper ts"
    and ne: "ts \<noteq> []" and ext: "suffix ''.ts'' (last ts)"
    and nb: "\<forall>x \<in> set (rel_list ds ts). backslash \<notin> set x"
  shows "\<exists>rel. make_relative cwd (root r @ join_with slash (ds @ [n])) (root r @ join_with slash ts) = Inr rel
             \<and> resolve_import (root r @ join_with slash (ds @ [n])) rel = root r @ join_with slash ts
             \<and> rel \<noteq> [] \<and> (suffix ''.js'' rel \<or> last rel = dot)
             \<and> set rel \<subseteq> (\<Union>x \<in> set (rel_list ds ts). set x) \<union> set ''./js''"
proof -
  let ?from = "root r @ join_with slash (ds @ [n])"
  let ?dir = "root r @ join_with slash ds"
  let ?to = "root r @ join_with slash ts"
  let ?xs = "if rel_list ds ts = [] then [[dot]] else rel_list ds ts"
  let ?R = "join_with slash ?xs"
  have dn: "dirname ?from = ?dir"
    by (rule dirname_root_join[OF list_all_proper_seg[OF ds] proper_seg[OF n]])
  have rp: "relpath cwd ?to ?dir = Inr ?R"
    by (simp add: relpath_abs[OF r r ds ts])
  have xs_ne: "?xs \<noteq> []" by simp
  have xs_seg: "list_all seg ?xs" using rel_list_seg[OF ts, of ds] by (simp add: seg_dots)
  have R_ne: "?R \<noteq> []" using join_seg_last[OF xs_seg xs_ne] by simp
  have "backslash \<notin> set x" if "x \<in> set ?xs" for x
    using that nb by (auto simp: backslash_def dot_def split: if_splits)
  then have "backslash \<notin> set ?R"
    using set_join_with[of slash ?xs] by (auto simp: backslash_def slash_def)
  then have sr: "str_replace [backslash] [slash] ?R = ?R" by (rule str_replace_absent)
  have lastxs: "last ?xs = [dot] \<or> last ?xs = [dot, dot] \<or> last ?xs = last ts"
    using rel_list_last[of ds ts] by auto
  obtain p where p: "?R = p @ last ?xs" using join_with_last[OF xs_ne] by blast
  have shape: "suffix ''.ts'' ?R \<or> last ?R = dot"
    using lastxs
  proof (elim disjE)
    assume "last ?xs = last ts"
    then have "suffix ''.ts'' ?R" using p ext by (metis suffix_appendI)
    then show ?thesis ..
  next
    assume "last ?xs = [dot]"
    then have "last ?R = dot" using p by simp
    then show ?thesis ..
  next
    assume "last ?xs = [dot, dot]"
    then have "last ?R = dot" using p by simp
    then show ?thesis ..
  qed
  let ?rl = "re_sub_end ''.ts'' ''.js'' ?R"
  let ?pre = "if \<not> prefix [dot] ?rl then ''./'' else []"
  have mr: "make_relative cwd ?from ?to = Inr (?pre @ ?rl)"
    unfolding make_relative_def dn Let_def rp by (simp add: sr)
  have undo: "re_sub_end ''.js'' ''.ts'' (?pre @ ?rl) = ?pre @ ?R"
    by (rule re_sub_end_round[OF R_ne shape])
  have "\<exists>ys. ?pre @ ?R = join_with slash ys \<and> ys \<noteq> []
          \<and> (ys = rel_list ds ts \<or> ys = [dot] # rel_list ds ts)"
  proof (cases "rel_list ds ts = []")
    case True
    then have "?R = [dot]" by simp
    then have "?rl = [dot]" by (simp add: re_sub_end_def dot_def newline_def suffix_def)
    then have "?pre = []" by simp
    then have "?pre @ ?R = join_with slash ([dot] # rel_list ds ts)" using True by simp
    then show ?thesis by blast
  next
    case False
    show ?thesis
    proof (cases "prefix [dot] ?rl")
      case True
      then have "?pre @ ?R = join_with slash (rel_list ds ts)" using False by simp
      then show ?thesis using False by blast
    next
      case nd: False
      then have "?pre @ ?R = [dot, slash] @ join_with slash (rel_list ds ts)"
        using False by (simp add: dot_def slash_def)
      then have "?pre @ ?R = join_with slash ([dot] # rel_list ds ts)"
        using dot_join[OF False] by simp
      then show ?thesis by blast
    qed
  qed
  then obtain ys where ys: "?pre @ ?R = join_with slash ys" "ys \<noteq> []"
      "ys = rel_list ds ts \<or> ys = [dot] # rel_list ds ts" by blast
  have "resolve_import ?from (?pre @ ?rl) = normpath (path_join ?dir (join_with slash ys))"
    unfolding resolve_import_def dn Let_def undo ys(1) ..
  also have "\<dots> = ?to" by (rule resolve_rel[OF r ds ts ys(3) ys(2)])
  finally have res: "resolve_import ?from (?pre @ ?rl) = ?to" .
  have rl: "?rl \<noteq> [] \<and> (suffix ''.js'' ?rl \<or> last ?rl = dot) \<and> set ?rl \<subseteq> set ?R \<union> set ''.js''"
    by (rule re_sub_end_facts[OF R_ne shape])
  have sR: "set ?R \<subseteq> (\<Union>x \<in> set (rel_list ds ts). set x) \<union> set ''./''"
    using set_join_with[of slash ?xs] by (auto simp: slash_def dot_def split: if_splits)
  have f1: "?pre @ ?rl \<noteq> []" using rl by simp
  have f2: "suffix ''.js'' (?pre @ ?rl) \<or> last (?pre @ ?rl) = dot"
    using rl by (auto simp: suffix_def)
  have f3: "set (?pre @ ?rl) \<subseteq> (\<Union>x \<in> set (rel_list ds ts). set x) \<union> set ''./js''"
    using rl sR by auto
  show ?thesis using mr res f1 f2 f3 by blast
qed

lemma round_trip_paths:
  assumes f: "is_norm_abs from_file" and t: "is_norm_abs to_file"
    and same: "initial_slashes from_file = initial_slashes to_file"
    and fe: "suffix ''.ts'' from_file" and te: "suffix ''.ts'' to_file"
    and nb: "backslash \<notin> set to_file"
  shows "\<exists>rel. make_relative cwd from_file to_file = Inr rel
               \<and> resolve_import from_file rel = to_file"
proof -
  define r where "r = initial_slashes from_file"
  obtain fs where fs: "list_all proper fs" "from_file = root r @ join_with slash fs"
    using norm_abs_shape[OF f] unfolding r_def by blast
  obtain ts where ts: "list_all proper ts" "to_file = root r @ join_with slash ts"
    using norm_abs_shape[OF t] same unfolding r_def by metis
  have r: "r = 1 \<or> r = 2"
    unfolding r_def using f by (intro initial_slashes_cases) (simp add: is_norm_abs_def)
  have ns: "slash \<notin> set ''.ts''" by (simp add: slash_def)
  have "fs \<noteq> []"
    using suffix_root_join[of "''.ts''" r fs] fe fs(2) ns by simp
  then obtain ds n where dn: "fs = ds @ [n]" by (cases fs rule: rev_cases) auto
  have tne: "ts \<noteq> []" and tl: "suffix ''.ts'' (last ts)"
    using suffix_root_join[of "''.ts''" r ts] te ts(2) ns by simp_all
  have pd: "list_all proper ds" and pn: "proper n" using fs(1) dn by simp_all
  have nbt: "\<forall>x \<in> set (rel_list ds ts). backslash \<notin> set x"
  proof
    fix x assume "x \<in> set (rel_list ds ts)"
    then consider "x = [dot, dot]" | "x \<in> set ts" using set_rel_list[of ds ts] by auto
    then show "backslash \<notin> set x"
    proof cases
      case 1
      then show ?thesis by (simp add: backslash_def dot_def)
    next
      case 2
      then have "set x \<subseteq> set (join_with slash ts)" by (rule set_in_join_with)
      then show ?thesis using nb ts(2) by auto
    qed
  qed
  show ?thesis
    using round_trip_comps[OF r pd pn ts(1) tne tl nbt, of cwd]
    unfolding fs(2) ts(2) dn by blast
qed

lemma normpath_abs_norm:
  assumes "prefix [slash] q"
  shows "is_norm_abs (normpath q)"
proof -
  define r where "r = initial_slashes q"
  define cs where "cs = foldl (norm_step r) [] (split_on slash q)"
  have r: "r = 1 \<or> r = 2" unfolding r_def using assms by (rule initial_slashes_cases)
  then have r0: "r \<noteq> 0" by auto
  have pc: "list_all proper cs"
    unfolding cs_def by (rule fold_inv[OF r0]) (auto dest: split_on_no_sep)
  have "q \<noteq> []" using assms by auto
  then have e: "normpath q = root r @ join_with slash cs"
    using r by (auto simp: normpath_def Let_def root_def r_def cs_def)
  have "prefix [slash] (root r @ join_with slash cs)"
    using r by (auto simp: root_def numeral_2_eq_2)
  then show ?thesis
    unfolding e is_norm_abs_def using normpath_abs_fixed[OF r pc] by simp
qed

lemma path_join_abs: "prefix [slash] a \<Longrightarrow> prefix [slash] (path_join a b)"
  by (cases a) (auto simp: path_join_def)

lemma dirname_norm_abs:
  assumes "is_norm_abs f" "suffix ''.ts'' f"
  shows "prefix [slash] (dirname f)"
proof -
  define r where "r = initial_slashes f"
  obtain fs where fs: "list_all proper fs" "f = root r @ join_with slash fs"
    using norm_abs_shape[OF assms(1)] unfolding r_def by blast
  have r: "r = 1 \<or> r = 2"
    unfolding r_def using assms(1) by (intro initial_slashes_cases) (simp add: is_norm_abs_def)
  have "slash \<notin> set ''.ts''" by (simp add: slash_def)
  then have "fs \<noteq> []" using suffix_root_join[of "''.ts''" r fs] assms(2) fs(2) by simp
  then obtain ds n where dn: "fs = ds @ [n]" by (cases fs rule: rev_cases) auto
  have "dirname f = root r @ join_with slash ds"
    unfolding fs(2) dn using fs(1) dn
    by (intro dirname_root_join) (simp_all add: list_all_proper_seg proper_seg)
  then show ?thesis using r by (auto simp: root_def numeral_2_eq_2)
qed

lemma resolve_import_norm_abs:
  assumes "is_norm_abs f" "suffix ''.ts'' f"
  shows "is_norm_abs (resolve_import f imp)"
  unfolding resolve_import_def Let_def
  by (intro normpath_abs_norm path_join_abs dirname_norm_abs[OF assms])

lemma fold_inv0:
  assumes "\<forall>x \<in> set xs. slash \<notin> set x" "list_all proper ps"
  shows "\<exists>k' ps'. foldl (norm_step 0) (replicate k [dot, dot] @ ps) xs = replicate k' [dot, dot] @ ps'
                  \<and> list_all proper ps'"
  using assms
proof (induction xs arbitrary: k ps)
  case Nil
  then have "foldl (norm_step 0) (replicate k [dot, dot] @ ps) [] = replicate k [dot, dot] @ ps
             \<and> list_all proper ps" by simp
  then show ?case by blast
next
  case (Cons x xs)
  have "\<exists>k1 ps1. norm_step 0 (replicate k [dot, dot] @ ps) x = replicate k1 [dot, dot] @ ps1
                  \<and> list_all proper ps1"
  proof (cases "proper x")
    case True
    then have "norm_step 0 (replicate k [dot, dot] @ ps) x = replicate k [dot, dot] @ (ps @ [x])"
      by (simp add: norm_step_proper)
    moreover have "list_all proper (ps @ [x])" using True Cons.prems by simp
    ultimately show ?thesis by blast
  next
    case False
    then consider "x = []" | "x = [dot]" | "x = [dot, dot]" using Cons.prems(1) by (auto simp: proper_def)
    then show ?thesis
    proof cases
      case 1 then show ?thesis using Cons.prems(2) by auto
    next
      case 2 then show ?thesis using Cons.prems(2) by auto
    next
      case 3
      show ?thesis
      proof (cases ps rule: rev_cases)
        case Nil
        have "norm_step 0 (replicate k [dot, dot]) [dot, dot] = replicate (Suc k) [dot, dot] @ []"
          by (cases k) (simp_all add: norm_step_def replicate_append_same)
        moreover have "list_all proper ([] :: string list)" by simp
        ultimately show ?thesis using Nil 3 by (metis append_Nil2)
      next
        case (snoc qs q)
        then have "proper q" "list_all proper qs" using Cons.prems(2) by simp_all
        then have "norm_step 0 (replicate k [dot, dot] @ ps) x = replicate k [dot, dot] @ qs"
          using norm_step_pop[of q 0 "replicate k [dot, dot] @ qs"] snoc 3 by simp
        then show ?thesis using \<open>list_all proper qs\<close> by blast
      qed
    qed
  qed
  then obtain k1 ps1 where s: "norm_step 0 (replicate k [dot, dot] @ ps) x = replicate k1 [dot, dot] @ ps1"
    "list_all proper ps1" by blast
  have "\<forall>x \<in> set xs. slash \<notin> set x" using Cons.prems(1) by simp
  from Cons.IH[OF this s(2), of k1] show ?case by (simp add: s(1))
qed

lemma fold_dotdots0: "foldl (norm_step 0) (replicate j [dot, dot]) (replicate k [dot, dot]) = replicate (j + k) [dot, dot]"
proof (induction k arbitrary: j)
  case 0 show ?case by simp
next
  case (Suc k)
  have "norm_step 0 (replicate j [dot, dot]) [dot, dot] = replicate (Suc j) [dot, dot]"
    by (cases j) (simp_all add: norm_step_def replicate_append_same)
  then show ?case using Suc[of "Suc j"] by simp
qed

lemma normpath_idem: "normpath (normpath p) = normpath p"
proof (cases "prefix [slash] p")
  case True
  then show ?thesis using normpath_abs_norm[OF True] by (simp add: is_norm_abs_def)
next
  case False
  have dotfix: "normpath [dot] = [dot]"
    by code_simp
  show ?thesis
  proof (cases "p = []")
    case True
    then show ?thesis using dotfix by (simp add: normpath_def)
  next
    case ne: False
    have i0: "initial_slashes p = 0" using False by (simp add: initial_slashes_def)
    obtain k ps where c: "foldl (norm_step 0) [] (split_on slash p) = replicate k [dot, dot] @ ps"
        "list_all proper ps"
      using fold_inv0[of "split_on slash p" "[]" 0] by (auto dest: split_on_no_sep)
    let ?cs = "replicate k [dot, dot] @ ps"
    show ?thesis
    proof (cases "?cs = []")
      case True
      then have "normpath p = [dot]" using ne i0 c(1) by (simp add: normpath_def Let_def)
      then show ?thesis using dotfix by simp
    next
      case cne: False
      have sg: "list_all seg ?cs" using c(2) by (auto simp: list_all_iff seg_dots proper_seg)
      let ?q = "join_with slash ?cs"
      have qne: "?q \<noteq> []" using join_seg_last[OF sg cne] by simp
      have np: "normpath p = ?q" using ne i0 c(1) qne by (simp add: normpath_def Let_def)
      have nq: "\<not> prefix [slash] ?q" using join_seg_hd[OF sg, of "[]"] cne by auto
      then have iq: "initial_slashes ?q = 0" by (simp add: initial_slashes_def)
      have sq: "split_on slash ?q = ?cs" using split_join_seg[OF sg] cne by simp
      have "foldl (norm_step 0) [] ?cs = ?cs"
        using fold_dotdots0[of 0 k] by (simp add: fold_proper[OF c(2)])
      then have "normpath ?q = ?q" using qne iq sq by (simp add: normpath_def Let_def)
      then show ?thesis using np by simp
    qed
  qed
qed


lemma match_import_end: "match_import s = Some (g1, e) \<Longrightarrow> 6 \<le> e"
  by (auto simp: match_import_def split: if_splits option.splits)

lemma re_sub_no_imports: "find_imports s = [] \<Longrightarrow> re_sub_import repl s = Inr s"
  by (induction s rule: find_imports.induct) (auto split: option.splits)




lemma compute_updates_map_of:
  "compute_updates cwd moves disk fs upd = Inr upd' \<Longrightarrow>
   map_of upd' k = (if k \<in> set fs \<and> update_entry cwd moves disk k \<noteq> None
                    then update_entry cwd moves disk k else map_of upd k)"
proof (induction fs arbitrary: upd)
  case Nil then show ?case by simp
next
  case (Cons f rest)
  from Cons.prems obtain content where c: "read_text disk f = Inr content"
    by (auto simp: Let_def split: sum.splits)
  from Cons.prems c obtain nc where nc: "rewrite_imports cwd moves f content = Inr nc"
    by (auto simp: Let_def rewrite_imports_def split: sum.splits)
  let ?upd1 = "if nc \<noteq> content \<or> f \<noteq> new_path_of f moves
               then AList.update f (new_path_of f moves, nc) upd else upd"
  have step: "compute_updates cwd moves disk rest ?upd1 = Inr upd'"
    using Cons.prems c nc by (simp add: Let_def rewrite_imports_def)
  have ef: "update_entry cwd moves disk f =
            (if nc \<noteq> content \<or> f \<noteq> new_path_of f moves then Some (new_path_of f moves, nc) else None)"
    by (simp add: update_entry_def c nc)
  have m1: "map_of ?upd1 k = (if k = f \<and> update_entry cwd moves disk f \<noteq> None
                               then update_entry cwd moves disk f else map_of upd k)"
    by (auto simp: ef update_conv')
  show ?case
    unfolding Cons.IH[OF step] m1 by auto
qed

lemma compute_updates_keys:
  "compute_updates cwd moves disk fs upd = Inr upd' \<Longrightarrow>
   distinct (map fst upd) \<Longrightarrow>
   distinct (map fst upd')
   \<and> fst ` set upd' = fst ` set upd \<union> {k \<in> set fs. update_entry cwd moves disk k \<noteq> None}"
proof (induction fs arbitrary: upd)
  case Nil then show ?case by simp
next
  case (Cons f rest)
  from Cons.prems obtain content where c: "read_text disk f = Inr content"
    by (auto simp: Let_def split: sum.splits)
  from Cons.prems c obtain nc where nc: "rewrite_imports cwd moves f content = Inr nc"
    by (auto simp: Let_def rewrite_imports_def split: sum.splits)
  let ?upd1 = "if nc \<noteq> content \<or> f \<noteq> new_path_of f moves
               then AList.update f (new_path_of f moves, nc) upd else upd"
  have step: "compute_updates cwd moves disk rest ?upd1 = Inr upd'"
    using Cons.prems c nc by (simp add: Let_def rewrite_imports_def)
  have ef: "update_entry cwd moves disk f =
            (if nc \<noteq> content \<or> f \<noteq> new_path_of f moves then Some (new_path_of f moves, nc) else None)"
    by (simp add: update_entry_def c nc)
  have d1: "distinct (map fst ?upd1)" using Cons.prems(2) by (simp add: distinct_update)
  have ins: "fst ` set (AList.update f v upd) = insert f (fst ` set upd)" for v
  proof -
    have "set (map fst (AList.update f v upd)) = insert f (set (map fst upd))"
      by (simp add: update_keys) auto
    then show ?thesis by simp
  qed
  have k1: "fst ` set ?upd1 = fst ` set upd \<union> {k. k = f \<and> update_entry cwd moves disk f \<noteq> None}"
    unfolding ef by (simp add: ins)
  show ?case
    using Cons.IH[OF step d1] k1 by auto
qed

lemma planned_updates_length:
  assumes "planned_updates en moves_raw w = Inr upd"
  shows "length upd = card {k \<in> set (collect_files (walk en)).
            update_entry (getcwd en) (normalize_moves moves_raw) (files w) k \<noteq> None}"
proof -
  have "distinct (map fst upd) \<and> fst ` set upd = {k \<in> set (collect_files (walk en)).
            update_entry (getcwd en) (normalize_moves moves_raw) (files w) k \<noteq> None}"
    using compute_updates_keys[OF assms[unfolded planned_updates_def]] by simp
  then show ?thesis by (metis distinct_card length_map set_map)
qed

lemma files_log [simp]: "files (log e w) = files w"
  by (simp add: log_def)

lemma events_log [simp]: "events (log e w) = events w @ [e]"
  by (simp add: log_def)

text \<open>One pass of the loop over the moves.\<close>

lemma apply_moves_step:
  assumes "apply_moves en moves rr (k # rest) w = (res, w')"
  shows "(\<exists>evs. res \<noteq> None \<and> events w' = events w @ evs \<and> (\<forall>e \<in> set evs. \<not> is_write e)
            \<and> (files w' = files w \<or> (\<exists>new_abs. git_mv en k new_abs (files w) = Some (files w'))))
       \<or> (\<exists>new_abs disk p.
            map_of moves k = Some new_abs
            \<and> makedirs_ok en (dirname new_abs) (files w)
            \<and> git_mv en k new_abs (files w) = Some disk
            \<and> apply_moves en moves rr rest
                 (w\<lparr>files := disk, events := events w @ [MakeDirs (dirname new_abs), GitMv k new_abs, Print p]\<rparr>)
               = (res, w'))"
proof (cases "map_of moves k")
  case None
  then have "res \<noteq> None \<and> events w' = events w @ [] \<and> files w' = files w" using assms by auto
  then show ?thesis by force
next
  case (Some new_abs)
  note m = Some
  show ?thesis
  proof (cases "makedirs_ok en (dirname new_abs) (files w)")
    case False
    then have "res \<noteq> None \<and> events w' = events w @ [MakeDirs (dirname new_abs)] \<and> files w' = files w"
      using assms m by (auto simp: Let_def)
    then show ?thesis by force
  next
    case mk: True
    show ?thesis
    proof (cases "git_mv en k new_abs (files w)")
      case None
      then have "res \<noteq> None \<and> events w' = events w @ [MakeDirs (dirname new_abs), GitMv k new_abs]
          \<and> files w' = files w"
        using assms m mk by (auto simp: Let_def)
      then show ?thesis by force
    next
      case (Some disk)
      note g = Some
      show ?thesis
      proof (cases "relpath (getcwd en) k rr")
        case (Inl e)
        then have "res \<noteq> None \<and> events w' = events w @ [MakeDirs (dirname new_abs), GitMv k new_abs]
            \<and> files w' = disk"
          using assms m mk g by (auto simp: Let_def)
        then show ?thesis using g by force
      next
        case (Inr rel_old)
        note ro = Inr
        show ?thesis
        proof (cases "relpath (getcwd en) new_abs rr")
          case (Inl e)
          then have "res \<noteq> None \<and> events w' = events w @ [MakeDirs (dirname new_abs), GitMv k new_abs]
              \<and> files w' = disk"
            using assms m mk g ro by (auto simp: Let_def)
          then show ?thesis using g by force
        next
          case (Inr rel_new)
          have "apply_moves en moves rr rest
                 (w\<lparr>files := disk, events := events w @ [MakeDirs (dirname new_abs), GitMv k new_abs,
                     Print (''  git mv '' @ rel_old @ '' -> '' @ rel_new)]\<rparr>) = (res, w')"
            using assms m mk g ro Inr by (simp add: Let_def log_def)
          then show ?thesis using m mk g by blast
        qed
      qed
    qed
  qed
qed

lemma apply_moves_events:
  "apply_moves en moves rr ks w = (res, w') \<Longrightarrow>
   \<exists>evs. events w' = events w @ evs \<and> (\<forall>e \<in> set evs. \<not> is_write e)"
proof (induction ks arbitrary: w)
  case Nil
  then show ?case by simp
next
  case (Cons k rest)
  from apply_moves_step[OF Cons.prems] consider
      (err) evs where "events w' = events w @ evs" "\<forall>e \<in> set evs. \<not> is_write e"
    | (ok) new_abs disk p where "apply_moves en moves rr rest
              (w\<lparr>files := disk, events := events w @ [MakeDirs (dirname new_abs), GitMv k new_abs, Print p]\<rparr>)
            = (res, w')"
    by blast
  then show ?case
  proof cases
    case err
    then show ?thesis by blast
  next
    case (ok new_abs disk p)
    from Cons.IH[OF ok] obtain evs where
      "events w' = (events w @ [MakeDirs (dirname new_abs), GitMv k new_abs, Print p]) @ evs"
      "\<forall>e \<in> set evs. \<not> is_write e" by auto
    then have "events w' = events w @ ([MakeDirs (dirname new_abs), GitMv k new_abs, Print p] @ evs)
       \<and> (\<forall>e \<in> set ([MakeDirs (dirname new_abs), GitMv k new_abs, Print p] @ evs). \<not> is_write e)"
      by simp
    then show ?thesis by blast
  qed
qed



lemma flush_updates_writes:
  "flush_updates en rr upd w = (None, w') \<Longrightarrow>
   filter is_write (events w') = filter is_write (events w) @ map (\<lambda>(old, new, c). WriteFile new c) upd"
  by (induction upd arbitrary: w)
     (auto simp: Let_def split: option.splits sum.splits if_splits)

lemma flush_updates_step:
  assumes "flush_updates en rr ((old, new, c) # rest) w = (res, w')"
  shows "(\<exists>evs. events w' = events w @ evs \<and> (\<forall>e \<in> set evs. \<not> is_git_mv e))
       \<or> (\<exists>evs. (\<forall>e \<in> set evs. \<not> is_git_mv e)
            \<and> flush_updates en rr rest (w\<lparr>files := (files w)(new \<mapsto> c), events := events w @ evs\<rparr>) = (res, w'))"
proof (cases "write_ok en new (files w)")
  case False
  then have "events w' = events w @ []" using assms by simp
  then show ?thesis by force
next
  case ok: True
  show ?thesis
  proof (cases "old = new")
    case False
    then have "flush_updates en rr rest (w\<lparr>files := (files w)(new \<mapsto> c), events := events w @ [WriteFile new c]\<rparr>) = (res, w')"
      using assms ok by (simp add: Let_def log_def)
    moreover have "\<forall>e \<in> set [WriteFile new c]. \<not> is_git_mv e" by simp
    ultimately show ?thesis by blast
  next
    case True
    show ?thesis
    proof (cases "relpath (getcwd en) new rr")
      case (Inl e)
      then have "events w' = events w @ [WriteFile new c]" using assms ok True by (auto simp: Let_def)
      moreover have "\<forall>e \<in> set [WriteFile new c]. \<not> is_git_mv e" by simp
      ultimately show ?thesis by blast
    next
      case (Inr rel)
      then have "flush_updates en rr rest (w\<lparr>files := (files w)(new \<mapsto> c),
          events := events w @ [WriteFile new c, Print (''  updated imports in '' @ rel)]\<rparr>) = (res, w')"
        using assms ok True by (simp add: Let_def log_def)
      moreover have "\<forall>e \<in> set [WriteFile new c, Print (''  updated imports in '' @ rel)]. \<not> is_git_mv e" by simp
      ultimately show ?thesis by blast
    qed
  qed
qed

lemma flush_updates_events:
  "flush_updates en rr upd w = (res, w') \<Longrightarrow>
   \<exists>evs. events w' = events w @ evs \<and> (\<forall>e \<in> set evs. \<not> is_git_mv e)"
proof (induction upd arbitrary: w)
  case Nil
  then show ?case by simp
next
  case (Cons u rest)
  obtain old new c where u: "u = (old, new, c)" by (cases u)
  from flush_updates_step[OF Cons.prems[unfolded u]] show ?case
  proof (elim disjE exE conjE)
    fix evs assume "events w' = events w @ evs" "\<forall>e \<in> set evs. \<not> is_git_mv e"
    then show ?thesis by blast
  next
    fix evs
    assume n: "\<forall>e \<in> set evs. \<not> is_git_mv e"
      and "flush_updates en rr rest (w\<lparr>files := (files w)(new \<mapsto> c), events := events w @ evs\<rparr>) = (res, w')"
    from Cons.IH[OF this(2)] obtain evs2 where
      "events w' = (events w @ evs) @ evs2" "\<forall>e \<in> set evs2. \<not> is_git_mv e" by auto
    then have "events w' = events w @ (evs @ evs2) \<and> (\<forall>e \<in> set (evs @ evs2). \<not> is_git_mv e)"
      using n by auto
    then show ?thesis by blast
  qed
qed

lemma flush_updates_error:
  "flush_updates en rr upd w = (Some e, w') \<Longrightarrow> (\<forall>a b. e \<noteq> CalledProcessError a b)"
  by (induction upd arbitrary: w)
     (auto simp: Let_def relpath_def split: option.splits sum.splits if_splits)

lemma make_relative_error: "make_relative cwd f t = Inl e \<Longrightarrow> e = ValueError"
  by (auto simp: make_relative_def relpath_def Let_def split: sum.splits if_splits)

lemma re_sub_import_error:
  "re_sub_import repl s = Inl e \<Longrightarrow> \<exists>g0 g1. repl g0 g1 = Inl e"
  by (induction repl s rule: re_sub_import.induct) (auto split: option.splits sum.splits, blast+)

lemma rewrite_imports_error: "rewrite_imports cwd moves f content = Inl e \<Longrightarrow> e = ValueError"
proof -
  assume "rewrite_imports cwd moves f content = Inl e"
  then obtain g0 g1 where "replace_import cwd moves f (new_path_of f moves) g0 g1 = Inl e"
    unfolding rewrite_imports_def by (blast dest: re_sub_import_error)
  then show ?thesis
    by (auto simp: replace_import_def Let_def split: sum.splits dest: make_relative_error)
qed

lemma read_text_error:
  "read_text disk p = Inl e \<Longrightarrow> e = FileNotFoundError p \<or> e = UnicodeDecodeError p"
  by (auto simp: read_text_def split: option.splits if_splits)

lemma compute_updates_error:
  "compute_updates cwd moves disk fs upd = Inl e \<Longrightarrow> (\<forall>a b. e \<noteq> CalledProcessError a b)"
proof (induction fs arbitrary: upd)
  case Nil
  then show ?case by simp
next
  case (Cons f rest)
  show ?case
  proof (cases "read_text disk f")
    case (Inl e')
    then have "e = e'" using Cons.prems by (simp add: Let_def)
    then show ?thesis using read_text_error[OF Inl] by auto
  next
    case (Inr content)
    show ?thesis
    proof (cases "rewrite_imports cwd moves f content")
      case (Inl e')
      then have "e = e'" using Cons.prems Inr by (simp add: Let_def rewrite_imports_def)
      then show ?thesis using rewrite_imports_error[OF Inl] by simp
    next
      case nc: (Inr nc)
      then show ?thesis using Cons.prems Inr Cons.IH
        by (simp add: Let_def rewrite_imports_def split: if_splits)
    qed
  qed
qed

lemma resolve_import_normalized: "normpath (resolve_import f imp) = resolve_import f imp"
  by (simp add: resolve_import_def Let_def normpath_idem)


lemma planned_updates_entry:
  assumes "planned_updates en moves_raw w = Inr upd" "f \<in> set (collect_files (walk en))"
  shows "map_of upd f = update_entry (getcwd en) (normalize_moves moves_raw) (files w) f"
proof (cases "update_entry (getcwd en) (normalize_moves moves_raw) (files w) f")
  case None
  then show ?thesis
    using compute_updates_map_of[OF assms(1)[unfolded planned_updates_def], of f] by simp
next
  case (Some a)
  then show ?thesis
    using compute_updates_map_of[OF assms(1)[unfolded planned_updates_def], of f] assms(2) by simp
qed

lemma run_success_writes:
  assumes "planned_updates en moves_raw w = Inr upd" "run en moves_raw w = (None, w')"
  shows "filter is_write (events w') = filter is_write (events w) @ map (\<lambda>(old, new, c). WriteFile new c) upd"
proof -
  let ?moves = "normalize_moves moves_raw"
  let ?rr = "dirname (base en)"
  obtain r1 w1 where a: "apply_moves en ?moves ?rr (sort (map fst ?moves)) w = (r1, w1)"
    by (cases "apply_moves en ?moves ?rr (sort (map fst ?moves)) w")
  have r1: "r1 = None"
    using assms a by (cases r1) (simp_all add: run_def planned_updates_def Let_def)
  obtain r2 w2 where f: "flush_updates en ?rr upd w1 = (r2, w2)"
    by (cases "flush_updates en ?rr upd w1")
  have r2: "r2 = None" and w': "w' = log (Print (summary (length ?moves) (length upd))) w2"
    using assms a f r1 by (cases r2; simp add: run_def planned_updates_def Let_def)+
  obtain evs where e1: "events w1 = events w @ evs" "\<forall>e \<in> set evs. \<not> is_write e"
    using apply_moves_events[OF a] by blast
  have "filter is_write (events w1) = filter is_write (events w)"
    using e1 by simp
  moreover have "filter is_write (events w2) = filter is_write (events w1) @ map (\<lambda>(old, new, c). WriteFile new c) upd"
    using flush_updates_writes f r2 by simp
  ultimately show ?thesis by (simp add: w')
qed



lemma relocate_contents:
  "relocate old new disk = Some disk' \<Longrightarrow> ran disk' \<subseteq> ran disk"
  by (auto simp: relocate_def ran_def split: if_splits)

lemma apply_moves_relocate_contents:
  "git_mv en = relocate \<Longrightarrow> apply_moves en moves rr ks w = (res, w') \<Longrightarrow> ran (files w') \<subseteq> ran (files w)"
proof (induction ks arbitrary: w)
  case Nil
  then show ?case by simp
next
  case (Cons k rest)
  from apply_moves_step[OF Cons.prems(2)] consider
      (same) "files w' = files w"
    | (moved) new_abs where "git_mv en k new_abs (files w) = Some (files w')"
    | (ok) new_abs disk p where "git_mv en k new_abs (files w) = Some disk"
        "apply_moves en moves rr rest
              (w\<lparr>files := disk, events := events w @ [MakeDirs (dirname new_abs), GitMv k new_abs, Print p]\<rparr>)
            = (res, w')"
    by blast
  then show ?case
  proof cases
    case same
    then show ?thesis by simp
  next
    case (moved new_abs)
    then show ?thesis using Cons.prems(1) by (simp add: relocate_contents)
  next
    case (ok new_abs disk p)
    have "ran disk \<subseteq> ran (files w)" using ok(1) Cons.prems(1) by (simp add: relocate_contents)
    then show ?thesis using Cons.IH[OF Cons.prems(1) ok(2)] by simp
  qed
qed

lemma backtrack_Some:
  "backtrack n s = Some k \<Longrightarrow> 1 \<le> k \<and> k \<le> n \<and> prefix js_quote (drop k s)"
  by (induction n) (auto split: if_splits)

lemma backtrack_run:
  assumes "backtrack (length (takeWhile (\<lambda>x. x \<noteq> dquote) s)) s = Some k"
  shows "\<exists>a rest. s = a @ ''.js'' @ dquote # rest \<and> length a = k \<and> 1 \<le> k \<and> dquote \<notin> set a"
proof -
  let ?P = "\<lambda>x. x \<noteq> dquote"
  let ?n = "length (takeWhile ?P s)"
  from backtrack_Some[OF assms] have k: "1 \<le> k" "k \<le> ?n" and p: "prefix js_quote (drop k s)"
    by simp_all
  from p obtain rest where d: "drop k s = ''.js'' @ dquote # rest"
    by (auto simp: prefix_def js_quote_def)
  define a where "a = take k s"
  have "?n \<le> length s" by (rule length_takeWhile_le)
  then have la: "length a = k" using k(2) by (simp add: a_def)
  have s: "s = a @ ''.js'' @ dquote # rest" using d a_def by (metis append_take_drop_id)
  have "take k (xs @ ys) = take k xs" if "k \<le> length xs" for xs ys :: string
    using that by simp
  from this[of "takeWhile ?P s" "dropWhile ?P s"] k(2)
  have "a = take k (takeWhile ?P s)" by (simp only: takeWhile_dropWhile_id a_def)
  then have "set a \<subseteq> set (takeWhile ?P s)" by (metis set_take_subset)
  then have nq: "dquote \<notin> set a" using set_takeWhileD by fastforce
  show ?thesis using s la k(1) nq by blast
qed

lemma backtrack_first:
  "1 \<le> k \<Longrightarrow> k \<le> n \<Longrightarrow> prefix js_quote (drop k s) \<Longrightarrow>
   (\<forall>j. k < j \<and> j \<le> n \<longrightarrow> \<not> prefix js_quote (drop j s)) \<Longrightarrow> backtrack n s = Some k"
proof (induction n)
  case 0
  then show ?case by simp
next
  case (Suc n)
  show ?case
  proof (cases "k = Suc n")
    case True
    then show ?thesis using Suc.prems by simp
  next
    case False
    then have "k \<le> n" "\<not> prefix js_quote (drop (Suc n) s)" using Suc.prems by auto
    then show ?thesis using Suc by simp
  qed
qed

lemma backtrack_body:
  assumes "dquote \<notin> set a" "a \<noteq> []"
  shows "backtrack (length (takeWhile (\<lambda>x. x \<noteq> dquote) (a @ ''.js'' @ dquote # rest)))
           (a @ ''.js'' @ dquote # rest) = Some (length a)"
proof -
  define x where "x = ''.js'' @ dquote # rest"
  have "\<And>c. c \<in> set a \<Longrightarrow> c \<noteq> dquote" using assms(1) by auto
  then have "takeWhile (\<lambda>c. c \<noteq> dquote) (a @ x) = a @ takeWhile (\<lambda>c. c \<noteq> dquote) x"
    by (rule takeWhile_append2)
  moreover have "takeWhile (\<lambda>c. c \<noteq> dquote) x = ''.js''" by (simp add: x_def dquote_def)
  ultimately have n: "length (takeWhile (\<lambda>c. c \<noteq> dquote) (a @ x)) = length a + 3" by simp
  have dr: "drop (length a + i) (a @ x) = drop i x" for i by simp
  have p0: "prefix js_quote (drop (length a) (a @ x))" by (simp add: x_def js_quote_def)
  have pj: "\<not> prefix js_quote (drop j (a @ x))" if "length a < j" "j \<le> length a + 3" for j
  proof -
    define i where "i = j - length a"
    have i: "j = length a + i" "i = 1 \<or> i = 2 \<or> i = 3" using that by (auto simp: i_def)
    show ?thesis unfolding i(1) dr using i(2) by (auto simp: x_def js_quote_def dquote_def)
  qed
  have "backtrack (length a + 3) (a @ x) = Some (length a)"
    using assms(2) p0 pj by (intro backtrack_first) (auto simp: Suc_le_eq)
  then show ?thesis using n by (simp add: x_def)
qed


lemma match_tail_Some:
  assumes "match_tail s = Some m"
  shows "\<exists>a rest. s = slash # a @ ''.js'' @ dquote # rest \<and> a \<noteq> [] \<and> dquote \<notin> set a
                  \<and> m = length a + 5"
proof -
  from assms obtain v where v: "s = slash # v" by (cases s) (auto simp: match_tail_def split: if_splits)
  from assms v obtain k where k: "backtrack (length (takeWhile (\<lambda>x. x \<noteq> dquote) v)) v = Some k"
    "m = 1 + k + 4" by (auto simp: match_tail_def)
  from backtrack_run[OF k(1)] obtain a rest where
    "v = a @ ''.js'' @ dquote # rest" "length a = k" "1 \<le> k" "dquote \<notin> set a" by blast
  then have "s = slash # a @ ''.js'' @ dquote # rest \<and> a \<noteq> [] \<and> dquote \<notin> set a \<and> m = length a + 5"
    using v k(2) by auto
  then show ?thesis by blast
qed

lemma match_tail_body:
  assumes "dquote \<notin> set a" "a \<noteq> []"
  shows "match_tail (slash # a @ ''.js'' @ dquote # rest) = Some (length a + 5)"
  using backtrack_body[OF assms, of rest] by (simp add: match_tail_def)

lemma import_body_split:
  "import_body b \<longleftrightarrow> (\<exists>a. b = a @ ''.js'' \<and> a \<noteq> [] \<and> dquote \<notin> set a)"
proof
  assume "import_body b"
  then obtain a where a: "b = a @ ''.js''" and l: "4 \<le> length b" and q: "dquote \<notin> set b"
    by (auto simp: import_body_def suffix_def)
  then have "a \<noteq> []" by auto
  then show "\<exists>a. b = a @ ''.js'' \<and> a \<noteq> [] \<and> dquote \<notin> set a" using a q by auto
next
  assume "\<exists>a. b = a @ ''.js'' \<and> a \<noteq> [] \<and> dquote \<notin> set a"
  then obtain a where "b = a @ ''.js''" "a \<noteq> []" "dquote \<notin> set a" by blast
  then show "import_body b"
    by (cases a) (auto simp: import_body_def suffix_def dquote_def)
qed

lemma match_path_Some:
  assumes "match_path s = Some n"
  shows "\<exists>g rest. s = g @ dquote # rest \<and> import_shaped g \<and> n = length g + 1"
proof -
  from assms obtain t where t: "s = dot # t"
    by (cases s) (auto simp: match_path_def split: if_splits)
  show ?thesis
  proof (cases "prefix [dot] t \<and> match_tail (drop 1 t) \<noteq> None")
    case True
    then obtain u m where u: "t = dot # u" and m: "match_tail u = Some m"
      by (cases t) auto
    have n: "n = 2 + m" using assms t u m by (simp add: match_path_def)
    from match_tail_Some[OF m] obtain a rest where
      a: "u = slash # a @ ''.js'' @ dquote # rest" "a \<noteq> []" "dquote \<notin> set a" "m = length a + 5"
      by blast
    let ?g = "''../'' @ a @ ''.js''"
    have "import_body (a @ ''.js'')" using a(2,3) import_body_split by blast
    then have "import_shaped ?g" by (simp add: import_shaped_def)
    moreover have "s = ?g @ dquote # rest" using t u a(1) by (simp add: dot_def slash_def)
    moreover have "n = length ?g + 1" using n a(4) by simp
    ultimately show ?thesis by blast
  next
    case False
    then have "(if prefix [dot] t then match_tail (drop 1 t) else None) = None" by auto
    then have "map_option (\<lambda>n. 1 + n) (match_tail t) = Some n"
      using assms t by (simp add: match_path_def)
    then obtain m where m: "match_tail t = Some m" and n: "n = 1 + m" by auto
    from match_tail_Some[OF m] obtain a rest where
      a: "t = slash # a @ ''.js'' @ dquote # rest" "a \<noteq> []" "dquote \<notin> set a" "m = length a + 5"
      by blast
    let ?g = "''./'' @ a @ ''.js''"
    have "import_body (a @ ''.js'')" using a(2,3) import_body_split by blast
    then have "import_shaped ?g" by (simp add: import_shaped_def)
    moreover have "s = ?g @ dquote # rest" using t a(1) by (simp add: dot_def slash_def)
    moreover have "n = length ?g + 1" using n a(4) by simp
    ultimately show ?thesis by blast
  qed
qed

lemma match_path_shaped:
  assumes "import_shaped g"
  shows "match_path (g @ dquote # rest) = Some (length g + 1)"
proof -
  from assms consider
      (one) a where "g = ''./'' @ a @ ''.js''" "a \<noteq> []" "dquote \<notin> set a"
    | (two) a where "g = ''../'' @ a @ ''.js''" "a \<noteq> []" "dquote \<notin> set a"
  proof -
    assume r1: "\<And>a. g = ''./'' @ a @ ''.js'' \<Longrightarrow> a \<noteq> [] \<Longrightarrow> dquote \<notin> set a \<Longrightarrow> thesis"
      and r2: "\<And>a. g = ''../'' @ a @ ''.js'' \<Longrightarrow> a \<noteq> [] \<Longrightarrow> dquote \<notin> set a \<Longrightarrow> thesis"
    from assms show thesis
      unfolding import_shaped_def
    proof
      assume h: "prefix ''./'' g \<and> import_body (drop 2 g)"
      then obtain a where "drop 2 g = a @ ''.js''" "a \<noteq> []" "dquote \<notin> set a"
        using import_body_split by blast
      moreover have "g = ''./'' @ drop 2 g" using h by (auto simp: prefix_def)
      ultimately show thesis using r1 by metis
    next
      assume h: "prefix ''../'' g \<and> import_body (drop 3 g)"
      then obtain a where "drop 3 g = a @ ''.js''" "a \<noteq> []" "dquote \<notin> set a"
        using import_body_split by blast
      moreover have "g = ''../'' @ drop 3 g" using h by (auto simp: prefix_def)
      ultimately show thesis using r2 by metis
    qed
  qed
  then show ?thesis
  proof cases
    case (one a)
    have "match_tail (slash # a @ ''.js'' @ dquote # rest) = Some (length a + 5)"
      by (rule match_tail_body[OF one(3,2)])
    then show ?thesis
      by (simp add: one(1) match_path_def dot_def slash_def)
  next
    case (two a)
    have "match_tail (slash # a @ ''.js'' @ dquote # rest) = Some (length a + 5)"
      by (rule match_tail_body[OF two(3,2)])
    then show ?thesis
      by (simp add: two(1) match_path_def dot_def slash_def)
  qed
qed

lemma from_kw_length [simp]: "length from_kw = 6"
  by (simp add: from_kw_def)

lemma match_import_Some:
  assumes "match_import s = Some (g, e)"
  shows "\<exists>rest. s = from_kw @ g @ dquote # rest \<and> import_shaped g \<and> e = length g + 7"
proof -
  from assms have p: "prefix from_kw s" by (auto simp: match_import_def split: if_splits)
  then obtain t where t: "s = from_kw @ t" by (auto simp: prefix_def)
  then have d: "drop 6 s = t" by simp
  from assms p obtain n where n: "match_path t = Some n" "g = take (n - 1) t" "e = 6 + n"
    by (auto simp: match_import_def d split: option.splits)
  from match_path_Some[OF n(1)] obtain g' rest where
    g': "t = g' @ dquote # rest" "import_shaped g'" "n = length g' + 1" by blast
  have "g = g'" using n(2) g'(1,3) by simp
  then show ?thesis using t g' n(3) by auto
qed

lemma match_import_shaped:
  assumes "import_shaped g"
  shows "match_import (from_kw @ g @ dquote # rest) = Some (g, length g + 7)"
proof -
  have "drop 6 (from_kw @ g @ dquote # rest) = g @ dquote # rest" by simp
  then show ?thesis
    using match_path_shaped[OF assms, of rest] by (simp add: match_import_def)
qed

lemma match_import_not_f: "x \<noteq> CHR ''f'' \<Longrightarrow> match_import (x # s) = None"
  by (simp add: match_import_def from_kw_def)

lemma str_replace_skip:
  "a \<notin> set p \<Longrightarrow> str_replace (a # old) new (p @ s) = p @ str_replace (a # old) new s"
  by (induction p) auto

lemma import_shaped_hd: "import_shaped g \<Longrightarrow> \<exists>t. g = dot # t"
  by (auto simp: import_shaped_def prefix_def dot_def)

lemma replace_in_statement:
  assumes "import_shaped g"
  shows "str_replace g new (from_kw @ g @ [dquote]) = from_kw @ new @ [dquote]"
proof -
  from import_shaped_hd[OF assms] obtain t where g: "g = dot # t" by blast
  have "dot \<notin> set from_kw" by (simp add: from_kw_def dot_def dquote_def)
  then have "str_replace (dot # t) new (from_kw @ (dot # t) @ [dquote])
             = from_kw @ str_replace (dot # t) new ((dot # t) @ [dquote])"
    by (rule str_replace_skip)
  also have "str_replace (dot # t) new ((dot # t) @ [dquote]) = new @ [dquote]"
    by (simp add: dot_def dquote_def)
  finally show ?thesis by (simp add: g)
qed

text \<open>Copying a stretch of text in which no match starts.\<close>

lemma re_sub_skip:
  "(\<forall>i < length p. match_import (drop i (p @ t)) = None) \<Longrightarrow>
   re_sub_import repl (p @ t) = (case re_sub_import repl t of Inl e \<Rightarrow> Inl e | Inr u \<Rightarrow> Inr (p @ u))"
proof (induction p)
  case Nil
  show ?case by (simp split: sum.splits)
next
  case (Cons x p)
  have 0: "match_import (x # p @ t) = None" using Cons.prems by (metis drop0 length_greater_0_conv list.distinct(1) append_Cons)
  have "\<forall>i < length p. match_import (drop i (p @ t)) = None"
  proof (intro allI impI)
    fix i assume "i < length p"
    then have "match_import (drop (Suc i) ((x # p) @ t)) = None" using Cons.prems by (metis Suc_less_eq length_Cons)
    then show "match_import (drop i (p @ t)) = None" by simp
  qed
  from Cons.IH[OF this] show ?case using 0 by (simp split: sum.splits)
qed

text \<open>The substitution keeps the text up to the first double quote.\<close>

lemma re_sub_first_quote:
  assumes H: "\<And>g out. import_shaped g \<Longrightarrow> repl (from_kw @ g @ [dquote]) g = Inr out \<Longrightarrow> prefix from_kw out"
  shows "re_sub_import repl s = Inr t \<Longrightarrow>
         takeWhile (\<lambda>x. x \<noteq> dquote) t = takeWhile (\<lambda>x. x \<noteq> dquote) s
         \<and> (dropWhile (\<lambda>x. x \<noteq> dquote) t = [] \<longleftrightarrow> dropWhile (\<lambda>x. x \<noteq> dquote) s = [])"
proof (induction s arbitrary: t rule: find_imports.induct)
  case 1
  then show ?case by simp
next
  case (2 c cs)
  show ?case
  proof (cases "match_import (c # cs)")
    case None
    then obtain t' where t': "re_sub_import repl cs = Inr t'" "t = c # t'"
      using 2(3) by (auto split: sum.splits)
    show ?thesis using 2(1)[OF None t'(1)] t'(2) by simp
  next
    case (Some a)
    obtain g e where a: "a = (g, e)" by (cases a)
    from match_import_Some[OF Some[unfolded a]] obtain rest where
      s: "c # cs = from_kw @ g @ dquote # rest" and sh: "import_shaped g" and e: "e = length g + 7"
      by blast
    have tk: "take e (c # cs) = from_kw @ g @ [dquote]" by (simp add: s e)
    from 2(3) Some a obtain out where out: "repl (take e (c # cs)) g = Inr out"
      by (auto split: sum.splits)
    then obtain t' where t: "t = out @ t'" using 2(3) Some a by (auto split: sum.splits)
    have "prefix from_kw out" using H[OF sh] out tk by simp
    then obtain o' where o': "out = from_kw @ o'" by (auto simp: prefix_def)
    have 1: "takeWhile (\<lambda>x. x \<noteq> dquote) (from_kw @ z) = ''from ''" for z
      by (simp add: from_kw_def dquote_def)
    have 2: "dropWhile (\<lambda>x. x \<noteq> dquote) (from_kw @ z) \<noteq> []" for z
      by (simp add: from_kw_def dquote_def)
    have "takeWhile (\<lambda>x. x \<noteq> dquote) t = takeWhile (\<lambda>x. x \<noteq> dquote) (c # cs)"
      unfolding s t o' using 1[of "o' @ t'"] 1[of "g @ dquote # rest"] by simp
    moreover have "dropWhile (\<lambda>x. x \<noteq> dquote) t \<noteq> []"
      unfolding t o' using 2[of "o' @ t'"] by simp
    moreover have "dropWhile (\<lambda>x. x \<noteq> dquote) (c # cs) \<noteq> []"
      unfolding s using 2[of "g @ dquote # rest"] by simp
    ultimately show ?thesis by simp
  qed
qed

lemma import_shaped_cases:
  assumes "import_shaped g"
  obtains (one) b where "g = ''./'' @ b" "import_body b"
        | (two) b where "g = ''../'' @ b" "import_body b"
proof -
  from assms have "(\<exists>b. g = ''./'' @ b \<and> import_body b) \<or> (\<exists>b. g = ''../'' @ b \<and> import_body b)"
    unfolding import_shaped_def prefix_def by force
  then show thesis using one two by blast
qed

lemma import_shaped_no_quote: "import_shaped g \<Longrightarrow> dquote \<notin> set g"
  by (erule import_shaped_cases) (auto simp: import_body_def dquote_def)

lemma re_sub_skip_no_f:
  "CHR ''f'' \<notin> set p \<Longrightarrow>
   re_sub_import repl (p @ t) = (case re_sub_import repl t of Inl e \<Rightarrow> Inl e | Inr u \<Rightarrow> Inr (p @ u))"
  by (induction p) (auto simp: match_import_not_f split: sum.splits)

lemma split_at_quote:
  assumes "takeWhile (\<lambda>x. x \<noteq> dquote) s = a" "dropWhile (\<lambda>x. x \<noteq> dquote) s \<noteq> []"
  shows "\<exists>rest. s = a @ dquote # rest"
proof -
  obtain d rest where d: "dropWhile (\<lambda>x. x \<noteq> dquote) s = d # rest"
    using assms(2) by (cases "dropWhile (\<lambda>x. x \<noteq> dquote) s") auto
  have "\<not> (hd (dropWhile (\<lambda>x. x \<noteq> dquote) s) \<noteq> dquote)"
    using assms(2) hd_dropWhile by blast
  then have "d = dquote" using d by simp
  then have "s = a @ dquote # rest"
    using takeWhile_dropWhile_id[of "\<lambda>x. x \<noteq> dquote" s] assms(1) d by simp
  then show ?thesis by blast
qed

lemma takeWhile_to_quote:
  "dquote \<notin> set a \<Longrightarrow> takeWhile (\<lambda>x. x \<noteq> dquote) (a @ dquote # rest) = a"
proof -
  assume "dquote \<notin> set a"
  then have "\<And>x. x \<in> set a \<Longrightarrow> x \<noteq> dquote" by auto
  then have "takeWhile (\<lambda>x. x \<noteq> dquote) (a @ dquote # rest) = a @ takeWhile (\<lambda>x. x \<noteq> dquote) (dquote # rest)"
    by (rule takeWhile_append2)
  then show ?thesis by simp
qed

lemma dropWhile_to_quote:
  "dropWhile (\<lambda>x. x \<noteq> dquote) (a @ dquote # rest) \<noteq> []"
  by (simp add: dropWhile_eq_Nil_conv)

lemma re_sub_no_new_match:
  assumes H: "\<And>g out. import_shaped g \<Longrightarrow> repl (from_kw @ g @ [dquote]) g = Inr out \<Longrightarrow> prefix from_kw out"
    and nm: "match_import (c # cs) = None"
    and rs: "re_sub_import repl cs = Inr t"
  shows "match_import (c # t) = None"
proof (rule ccontr)
  assume "match_import (c # t) \<noteq> None"
  then obtain g e where m: "match_import (c # t) = Some (g, e)" by auto
  from match_import_Some[OF m] obtain rest where
    ct: "c # t = from_kw @ g @ dquote # rest" and sh: "import_shaped g" by blast
  have gq: "dquote \<notin> set g" by (rule import_shaped_no_quote[OF sh])
  let ?p = "''rom '' @ [dquote]"
  have c: "c = CHR ''f''" and t: "t = ?p @ g @ dquote # rest"
    using ct by (simp_all add: from_kw_def)
  have "dquote \<notin> set ''rom ''" by (simp add: dquote_def)
  then have tw: "takeWhile (\<lambda>x. x \<noteq> dquote) t = ''rom ''"
    using takeWhile_to_quote[of "''rom ''" "g @ dquote # rest"] t by simp
  have dw: "dropWhile (\<lambda>x. x \<noteq> dquote) t \<noteq> []"
    using dropWhile_to_quote[of "''rom ''" "g @ dquote # rest"] t by simp
  from re_sub_first_quote[OF H rs] tw dw
  have "takeWhile (\<lambda>x. x \<noteq> dquote) cs = ''rom ''" "dropWhile (\<lambda>x. x \<noteq> dquote) cs \<noteq> []"
    by simp_all
  from split_at_quote[OF this] obtain cs2 where cs: "cs = ?p @ cs2" by auto
  have nf: "CHR ''f'' \<notin> set ?p" by (simp add: dquote_def)
  have "re_sub_import repl (?p @ cs2)
        = (case re_sub_import repl cs2 of Inl e \<Rightarrow> Inl e | Inr u \<Rightarrow> Inr (?p @ u))"
    by (rule re_sub_skip_no_f[OF nf])
  then obtain t2 where t2: "re_sub_import repl cs2 = Inr t2" "t = ?p @ t2"
    using rs cs by (auto split: sum.splits)
  have t2g: "t2 = g @ dquote # rest" using t t2(2) by simp
  have "takeWhile (\<lambda>x. x \<noteq> dquote) t2 = g" "dropWhile (\<lambda>x. x \<noteq> dquote) t2 \<noteq> []"
    unfolding t2g using takeWhile_to_quote[OF gq] dropWhile_to_quote by simp_all
  with re_sub_first_quote[OF H t2(1)]
  have "takeWhile (\<lambda>x. x \<noteq> dquote) cs2 = g" "dropWhile (\<lambda>x. x \<noteq> dquote) cs2 \<noteq> []"
    by simp_all
  from split_at_quote[OF this] obtain rest2 where "cs2 = g @ dquote # rest2" by blast
  then have "c # cs = from_kw @ g @ dquote # rest2" using c cs by (simp add: from_kw_def)
  then have "match_import (c # cs) = Some (g, length g + 7)"
    using match_import_shaped[OF sh, of rest2] by simp
  then show False using nm by simp
qed

lemma join_hd_no_slash:
  "cs \<noteq> [] \<Longrightarrow> hd cs \<noteq> [] \<Longrightarrow> slash \<notin> set (hd cs) \<Longrightarrow> \<not> prefix [slash] (join_with slash cs)"
  by (induction slash cs rule: join_with.induct) (auto simp: neq_Nil_conv)

lemma normpath_root_join_gen:
  assumes "r = 1 \<or> r = 2" "\<forall>c \<in> set cs. slash \<notin> set c" "cs = [] \<or> hd cs \<noteq> []"
  shows "normpath (root r @ join_with slash cs)
         = root r @ join_with slash (foldl (norm_step r) [] cs)"
proof -
  let ?p = "root r @ join_with slash cs"
  have r0: "r \<noteq> 0" using assms(1) by auto
  have ne: "?p \<noteq> []" using assms(1) by (auto simp: root_def)
  have n: "\<not> prefix [slash] (join_with slash cs) \<or> cs = []"
    using join_hd_no_slash[of cs] assms(2,3) by (cases cs) auto
  have ini: "initial_slashes ?p = r"
    using assms(1) n by (auto simp: initial_slashes_def root_def numeral_2_eq_2)
  have "split_on slash (join_with slash cs) = (if cs = [] then [[]] else cs)"
    using assms(2) by (auto simp: split_on_join)
  then have sp: "split_on slash ?p = replicate r [] @ (if cs = [] then [[]] else cs)"
    by (simp add: root_def split_root)
  have fo: "foldl (norm_step r) [] (split_on slash ?p) = foldl (norm_step r) [] cs"
    by (simp add: sp fold_empties)
  have ne2: "replicate r slash @ join_with slash (foldl (norm_step r) [] cs) \<noteq> []"
    using assms(1) by auto
  show ?thesis
    unfolding normpath_def using ne ini fo ne2 r0 by (simp add: Let_def root_def)
qed

lemma path_join_root_gen:
  assumes "list_all seg ds" "xs \<noteq> []" "\<not> prefix [slash] (join_with slash xs)" "r \<noteq> 0"
  shows "path_join (root r @ join_with slash ds) (join_with slash xs)
         = root r @ join_with slash (ds @ xs)"
proof (cases "ds = []")
  case True
  have "root r = replicate (r - 1) slash @ [slash]"
    using assms(4) by (cases r) (simp_all add: root_def replicate_append_same)
  then have "suffix [slash] (root r)" by (metis suffixI)
  then show ?thesis using True assms(3) by (simp add: path_join_def)
next
  case False
  have j: "join_with slash ds \<noteq> []" "last (join_with slash ds) \<noteq> slash"
    using join_seg_last[OF assms(1) False] by simp_all
  have "\<not> suffix [slash] (root r @ join_with slash ds)"
  proof
    assume "suffix [slash] (root r @ join_with slash ds)"
    then obtain zs where "root r @ join_with slash ds = zs @ [slash]" by (auto simp: suffix_def)
    then have "last (root r @ join_with slash ds) = slash" by simp
    then show False using j by simp
  qed
  then show ?thesis using False assms(2,3) j
    by (simp add: path_join_def join_with_append)
qed

lemma fold_from_dir:
  assumes "r \<noteq> 0" "list_all proper ds" "\<forall>x \<in> set xs. slash \<notin> set x"
    "j0 \<le> length ds" "list_all proper ys0"
  shows "\<exists>j ys. foldl (norm_step r) (take j0 ds @ ys0) xs = take j ds @ ys \<and> j \<le> length ds
               \<and> list_all proper ys \<and> set ys \<subseteq> set ys0 \<union> set xs"
  using assms(3,4,5)
proof (induction xs arbitrary: j0 ys0)
  case Nil
  then have "foldl (norm_step r) (take j0 ds @ ys0) [] = take j0 ds @ ys0 \<and> j0 \<le> length ds
      \<and> list_all proper ys0 \<and> set ys0 \<subseteq> set ys0 \<union> set []" by simp
  then show ?case by blast
next
  case (Cons x xs)
  have "\<exists>j1 ys1. norm_step r (take j0 ds @ ys0) x = take j1 ds @ ys1 \<and> j1 \<le> length ds
          \<and> list_all proper ys1 \<and> set ys1 \<subseteq> set ys0 \<union> {x}"
  proof (cases "proper x")
    case True
    then have "norm_step r (take j0 ds @ ys0) x = take j0 ds @ (ys0 @ [x])"
      by (simp add: norm_step_proper)
    moreover have "list_all proper (ys0 @ [x])" using True Cons.prems by simp
    ultimately show ?thesis using Cons.prems(2) by (intro exI[of _ j0] exI[of _ "ys0 @ [x]"]) auto
  next
    case False
    then consider "x = []" | "x = [dot]" | "x = [dot, dot]" using Cons.prems(1) by (auto simp: proper_def)
    then show ?thesis
    proof cases
      case 1 then show ?thesis using Cons.prems by (intro exI[of _ j0] exI[of _ ys0]) auto
    next
      case 2 then show ?thesis using Cons.prems by (intro exI[of _ j0] exI[of _ ys0]) auto
    next
      case 3
      show ?thesis
      proof (cases ys0 rule: rev_cases)
        case (snoc qs q)
        then have "proper q" "list_all proper qs" using Cons.prems(3) by simp_all
        then have "norm_step r (take j0 ds @ ys0) x = take j0 ds @ qs"
          using norm_step_pop[of q r "take j0 ds @ qs"] snoc 3 by simp
        then show ?thesis using \<open>list_all proper qs\<close> Cons.prems(2) snoc
          by (intro exI[of _ j0] exI[of _ qs]) auto
      next
        case Nil
        show ?thesis
        proof (cases j0)
          case 0
          then have "norm_step r (take j0 ds @ ys0) x = take 0 ds @ []"
            using Nil 3 assms(1) by (simp add: norm_step_def)
          then show ?thesis by (intro exI[of _ 0] exI[of _ "[]"]) auto
        next
          case (Suc j')
          then have lt: "j' < length ds" using Cons.prems(2) by simp
          then have tk: "take j0 ds = take j' ds @ [ds ! j']" using Suc by (simp add: take_Suc_conv_app_nth)
          have "proper (ds ! j')" using assms(2) lt by (simp add: list_all_length)
          then have "norm_step r (take j0 ds @ ys0) x = take j' ds @ []"
            using norm_step_pop[of "ds ! j'" r "take j' ds"] tk Nil 3 by simp
          then show ?thesis using lt by (intro exI[of _ j'] exI[of _ "[]"]) auto
        qed
      qed
    qed
  qed
  then obtain j1 ys1 where s: "norm_step r (take j0 ds @ ys0) x = take j1 ds @ ys1" "j1 \<le> length ds"
    "list_all proper ys1" "set ys1 \<subseteq> set ys0 \<union> {x}" by blast
  have "\<forall>x \<in> set xs. slash \<notin> set x" using Cons.prems(1) by simp
  from Cons.IH[OF this s(2) s(3)] obtain j ys where
    "foldl (norm_step r) (take j1 ds @ ys1) xs = take j ds @ ys" "j \<le> length ds"
    "list_all proper ys" "set ys \<subseteq> set ys1 \<union> set xs" by blast
  then have "foldl (norm_step r) (take j0 ds @ ys0) (x # xs) = take j ds @ ys \<and> j \<le> length ds
      \<and> list_all proper ys \<and> set ys \<subseteq> set ys0 \<union> set (x # xs)"
    using s(1,4) by auto
  then show ?case by blast
qed

lemma commonprefix_ge:
  "j \<le> length ds \<Longrightarrow> j \<le> length (commonprefix ds (take j ds @ ys))"
proof (induction ds arbitrary: j)
  case Nil
  then show ?case by simp
next
  case (Cons d ds)
  then show ?case by (cases j) auto
qed

lemma rel_list_from_dir:
  assumes "j \<le> length ds"
  shows "set (rel_list ds (take j ds @ ys)) \<subseteq> insert [dot, dot] (set ys)"
proof -
  let ?i = "length (commonprefix ds (take j ds @ ys))"
  have "j \<le> ?i" by (rule commonprefix_ge[OF assms])
  then have "drop ?i (take j ds @ ys) = drop (?i - j) ys" using assms by simp
  then have "set (drop ?i (take j ds @ ys)) \<subseteq> set ys" by (metis set_drop_subset)
  then show ?thesis by (auto simp: rel_list_def)
qed

lemma js_to_ts:
  assumes "suffix ''.js'' g"
  shows "\<exists>m. g = m @ ''.js'' \<and> re_sub_end ''.js'' ''.ts'' g = m @ ''.ts''"
proof -
  from assms obtain m where m: "g = m @ ''.js''" by (auto simp: suffix_def)
  then have "re_sub_end ''.js'' ''.ts'' g = m @ ''.ts''" using assms by (simp add: re_sub_end_def)
  then show ?thesis using m by blast
qed

lemma import_shaped_suffix: "import_shaped g \<Longrightarrow> suffix ''.js'' g"
  by (erule import_shaped_cases) (auto simp: import_body_def suffix_def)

lemma import_shaped_length: "import_shaped g \<Longrightarrow> 6 \<le> length g"
  by (erule import_shaped_cases) (auto simp: import_body_def)

lemma fold_snoc_proper:
  "proper x \<Longrightarrow> foldl (norm_step r) acc (xs @ [x]) = foldl (norm_step r) acc xs @ [x]"
  by (simp add: norm_step_proper)

text \<open>What an import of the pattern's form resolves to, from a file \<open>root r @ ds/n\<close>.\<close>

lemma resolve_import_shape:
  assumes r: "r = 1 \<or> r = 2" and ds: "list_all proper ds" and n: "proper n"
    and sh: "import_shaped g"
  shows "\<exists>j ys. resolve_import (root r @ join_with slash (ds @ [n])) g
                  = root r @ join_with slash (take j ds @ ys)
               \<and> j \<le> length ds \<and> list_all proper ys \<and> ys \<noteq> [] \<and> suffix ''.ts'' (last ys)
               \<and> (\<forall>y \<in> set ys. set y \<subseteq> set g \<union> set ''.ts'')"
proof -
  let ?from = "root r @ join_with slash (ds @ [n])"
  let ?dir = "root r @ join_with slash ds"
  have r0: "r \<noteq> 0" using r by auto
  have sd: "list_all seg ds" by (rule list_all_proper_seg[OF ds])
  have dn: "dirname ?from = ?dir" by (rule dirname_root_join[OF sd proper_seg[OF n]])
  from js_to_ts[OF import_shaped_suffix[OF sh]] obtain m where
    m: "g = m @ ''.js''" and g': "re_sub_end ''.js'' ''.ts'' g = m @ ''.ts''" by blast
  let ?g' = "m @ ''.ts''"
  define xs where "xs = split_on slash ?g'"
  have jx: "join_with slash xs = ?g'" by (simp add: xs_def join_split)
  have xne: "xs \<noteq> []" by (simp add: xs_def split_on_nonempty)
  have xns: "\<forall>x \<in> set xs. slash \<notin> set x" unfolding xs_def by (auto dest: split_on_no_sep)
  obtain t where gt: "g = dot # t" using import_shaped_hd[OF sh] by blast
  have "m \<noteq> []" using import_shaped_length[OF sh] m by auto
  then obtain m' where m': "m = dot # m'" using gt m by (cases m) auto
  have nps: "\<not> prefix [slash] (join_with slash xs)" unfolding jx by (simp add: m' dot_def slash_def)
  have pj: "path_join ?dir ?g' = root r @ join_with slash (ds @ xs)"
    using path_join_root_gen[OF sd xne nps r0] by (simp only: jx)
  have hdx: "hd xs \<noteq> []"
  proof
    assume "hd xs = []"
    then obtain xs' where "xs = [] # xs'" using xne by (cases xs) auto
    then have "join_with slash xs = [] \<or> prefix [slash] (join_with slash xs)"
      by (cases xs') auto
    then show False using nps jx by simp
  qed
  have all_ns: "\<forall>c \<in> set (ds @ xs). slash \<notin> set c"
    using xns ds by (auto simp: list_all_iff proper_def)
  have hd_ne: "ds @ xs = [] \<or> hd (ds @ xs) \<noteq> []"
    using hdx xne ds by (cases ds) (auto simp: proper_def)
  have np: "normpath (root r @ join_with slash (ds @ xs))
            = root r @ join_with slash (foldl (norm_step r) [] (ds @ xs))"
    by (rule normpath_root_join_gen[OF r all_ns hd_ne])
  have f1: "foldl (norm_step r) [] (ds @ xs) = foldl (norm_step r) ds xs"
    by (simp add: fold_proper[OF ds])
  text \<open>the last component is the file name and stays\<close>
  have sl: "suffix ''.ts'' (join_with slash xs)" unfolding jx by (simp add: suffix_def)
  have "slash \<notin> set ''.ts''" by (simp add: slash_def)
  then have lx: "suffix ''.ts'' (last xs)"
    using suffix_root_join[of "''.ts''" 0 xs] sl by (simp add: root_def)
  then obtain q where q: "last xs = q @ ''.ts''" by (auto simp: suffix_def)
  have "slash \<notin> set (last xs)" using xns xne by simp
  then have pl: "proper (last xs)"
    using q by (auto simp: proper_def dot_def)
  obtain bx where bx: "xs = bx @ [last xs]" using xne by (metis append_butlast_last_id)
  have bns: "\<forall>x \<in> set bx. slash \<notin> set x" using xns bx by (metis Un_iff set_append)
  from fold_from_dir[OF r0 ds bns, of "length ds" "[]"] obtain j ys0 where
    fd: "foldl (norm_step r) (take (length ds) ds @ []) bx = take j ds @ ys0" "j \<le> length ds"
      "list_all proper ys0" "set ys0 \<subseteq> set [] \<union> set bx" by auto
  have f2: "foldl (norm_step r) ds xs = take j ds @ (ys0 @ [last xs])"
    using fd(1) fold_snoc_proper[OF pl, of r ds bx] bx by simp
  let ?ys = "ys0 @ [last xs]"
  have chars: "\<forall>y \<in> set ?ys. set y \<subseteq> set g \<union> set ''.ts''"
  proof
    fix y assume "y \<in> set ?ys"
    then have "y \<in> set xs" using fd(4) bx by (metis Un_iff append_Nil2 empty_set set_append subsetD list.set_intros(1) set_simps(2) sup_bot.left_neutral insert_iff)
    then have "set y \<subseteq> set (join_with slash xs)" by (rule set_in_join_with)
    then show "set y \<subseteq> set g \<union> set ''.ts''" unfolding jx using m by auto
  qed
  have "resolve_import ?from g = root r @ join_with slash (take j ds @ ?ys)"
    unfolding resolve_import_def Let_def dn g' pj np f1 f2 ..
  moreover have "list_all proper ?ys" using fd(3) pl by simp
  moreover have "suffix ''.ts'' (last ?ys)" using lx by simp
  ultimately show ?thesis using fd(2) chars by blast
qed

lemma rewritten_import:
  assumes f: "is_norm_abs f" and fe: "suffix ''.ts'' f"
    and sh: "import_shaped g" and nb: "backslash \<notin> set g"
  shows "\<exists>rel. make_relative cwd f (resolve_import f g) = Inr rel
             \<and> resolve_import f rel = resolve_import f g
             \<and> rel \<noteq> [] \<and> (suffix ''.js'' rel \<or> last rel = dot) \<and> dquote \<notin> set rel"
proof -
  define r where "r = initial_slashes f"
  obtain fs where fs: "list_all proper fs" "f = root r @ join_with slash fs"
    using norm_abs_shape[OF f] unfolding r_def by blast
  have r: "r = 1 \<or> r = 2"
    unfolding r_def using f by (intro initial_slashes_cases) (simp add: is_norm_abs_def)
  have "slash \<notin> set ''.ts''" by (simp add: slash_def)
  then have "fs \<noteq> []" using suffix_root_join[of "''.ts''" r fs] fe fs(2) by simp
  then obtain ds n where dn: "fs = ds @ [n]" by (cases fs rule: rev_cases) auto
  have pd: "list_all proper ds" and pn: "proper n" using fs(1) dn by simp_all
  have ff: "f = root r @ join_with slash (ds @ [n])" using fs(2) dn by simp
  from resolve_import_shape[OF r pd pn sh] obtain j ys where
    t: "resolve_import f g = root r @ join_with slash (take j ds @ ys)"
    and j: "j \<le> length ds" and py: "list_all proper ys" and yne: "ys \<noteq> []"
    and ly: "suffix ''.ts'' (last ys)" and ch: "\<forall>y \<in> set ys. set y \<subseteq> set g \<union> set ''.ts''"
    unfolding ff by blast
  let ?ts = "take j ds @ ys"
  have pt: "list_all proper ?ts" using pd py by (auto simp: list_all_iff dest: in_set_takeD)
  have tne: "?ts \<noteq> []" using yne by simp
  have lt: "suffix ''.ts'' (last ?ts)" using ly yne by simp
  have gq: "dquote \<notin> set g" by (rule import_shaped_no_quote[OF sh])
  have sub: "set (rel_list ds ?ts) \<subseteq> insert [dot, dot] (set ys)" by (rule rel_list_from_dir[OF j])
  have clean: "backslash \<notin> set x \<and> dquote \<notin> set x" if "x \<in> set (rel_list ds ?ts)" for x
  proof (cases "x = [dot, dot]")
    case True
    then show ?thesis by (simp add: backslash_def dquote_def dot_def)
  next
    case False
    then have "x \<in> set ys" using that sub by auto
    then have "set x \<subseteq> set g \<union> set ''.ts''" using ch by blast
    then show ?thesis using nb gq by (auto simp: backslash_def dquote_def)
  qed
  then have nbr: "\<forall>x \<in> set (rel_list ds ?ts). backslash \<notin> set x" by blast
  from round_trip_comps[OF r pd pn pt tne lt nbr, of cwd] obtain rel where
    rel: "make_relative cwd f (resolve_import f g) = Inr rel"
      "resolve_import f rel = resolve_import f g" "rel \<noteq> []"
      "suffix ''.js'' rel \<or> last rel = dot"
      "set rel \<subseteq> (\<Union>x \<in> set (rel_list ds ?ts). set x) \<union> set ''./js''"
    unfolding ff[symmetric] t[symmetric] by blast
  have "dquote \<notin> set rel"
  proof
    assume "dquote \<in> set rel"
    then have "dquote \<in> (\<Union>x \<in> set (rel_list ds ?ts). set x) \<or> dquote \<in> set ''./js''"
      using rel(5) by blast
    then show False using clean by (auto simp: dquote_def)
  qed
  then show ?thesis using rel by blast
qed

lemma new_path_of_empty: "new_path_of p [] = normpath p"
  by (simp add: new_path_of_def dict_get_def)

lemma replace_import_empty:
  assumes "import_shaped g" "make_relative cwd f (resolve_import f g) = Inr rel"
  shows "replace_import cwd [] f f (from_kw @ g @ [dquote]) g = Inr (from_kw @ rel @ [dquote])"
  using assms
  by (simp add: replace_import_def Let_def new_path_of_empty resolve_import_normalized
      replace_in_statement)

lemma replace_import_keeps_from:
  assumes "import_shaped g" "replace_import cwd moves old new (from_kw @ g @ [dquote]) g = Inr out"
  shows "prefix from_kw out"
  using assms
  by (auto simp: replace_import_def Let_def replace_in_statement split: sum.splits)

lemma re_sub_match:
  assumes "match_import s = Some (g, e)"
  shows "re_sub_import repl s =
           (case repl (take e s) g of
              Inl err \<Rightarrow> Inl err
            | Inr out \<Rightarrow> (case re_sub_import repl (drop e s) of
                            Inl err \<Rightarrow> Inl err | Inr t \<Rightarrow> Inr (out @ t)))"
proof (cases s)
  case Nil
  then show ?thesis using assms by (simp add: match_import_def from_kw_def)
next
  case (Cons c cs)
  have "1 \<le> e" using match_import_end[OF assms] by simp
  then have d: "drop e (c # cs) = drop (e - 1) cs" by (cases e) auto
  show ?thesis unfolding Cons d using assms Cons by simp
qed

lemma no_match_in_statement:
  assumes q: "dquote \<notin> set rel" and ne: "rel \<noteq> []" and l: "last rel \<noteq> CHR '' ''"
    and ns: "\<not> import_shaped rel"
  shows "\<forall>i < length (from_kw @ rel @ [dquote]).
           match_import (drop i ((from_kw @ rel @ [dquote]) @ t)) = None"
proof (intro allI impI)
  fix i assume i: "i < length (from_kw @ rel @ [dquote])"
  let ?T = "(from_kw @ rel @ [dquote]) @ t"
  consider (zero) "i = 0" | (kw) "0 < i" "i < 6" | (inside) "6 \<le> i" "i < 6 + length rel"
    | (quote) "i = 6 + length rel"
    using i by force
  then show "match_import (drop i ?T) = None"
  proof cases
    case zero
    show ?thesis
    proof (rule ccontr)
      assume "match_import (drop i ?T) \<noteq> None"
      then obtain g e where "match_import ?T = Some (g, e)" using zero by auto
      from match_import_Some[OF this] obtain rest where
        e: "?T = from_kw @ g @ dquote # rest" and sh: "import_shaped g" by blast
      then have "rel @ dquote # t = g @ dquote # rest" by simp
      then have "takeWhile (\<lambda>x. x \<noteq> dquote) (rel @ dquote # t)
                 = takeWhile (\<lambda>x. x \<noteq> dquote) (g @ dquote # rest)" by simp
      then have "rel = g"
        using takeWhile_to_quote[OF q] takeWhile_to_quote[OF import_shaped_no_quote[OF sh]] by simp
      then show False using ns sh by simp
    qed
  next
    case kw
    then have "i = 1 \<or> i = 2 \<or> i = 3 \<or> i = 4 \<or> i = 5" by arith
    then have "\<exists>x u. drop i from_kw = x # u \<and> x \<noteq> CHR ''f''"
      by (elim disjE) (simp_all add: from_kw_def dquote_def)
    then obtain x u where "drop i from_kw = x # u" "x \<noteq> CHR ''f''" by blast
    moreover have "drop i ?T = drop i from_kw @ rel @ dquote # t" using kw by simp
    ultimately show ?thesis by (simp add: match_import_not_f)
  next
    case inside
    define k where "k = i - 6"
    have k: "k < length rel" using inside by (simp add: k_def)
    have d: "drop i ?T = drop k rel @ dquote # t" using inside by (simp add: k_def)
    show ?thesis
    proof (rule ccontr)
      assume "match_import (drop i ?T) \<noteq> None"
      then have "prefix from_kw (drop k rel @ dquote # t)"
        unfolding d by (auto simp: match_import_def split: if_splits)
      then obtain z where z: "drop k rel @ dquote # t = ''from '' @ dquote # z"
        by (auto simp: prefix_def from_kw_def)
      have "dquote \<notin> set (drop k rel)" using q by (meson in_set_dropD)
      then have "takeWhile (\<lambda>x. x \<noteq> dquote) (drop k rel @ dquote # t) = drop k rel"
        by (rule takeWhile_to_quote)
      moreover have "takeWhile (\<lambda>x. x \<noteq> dquote) (''from '' @ dquote # z) = ''from ''"
        by (simp add: dquote_def)
      ultimately have "drop k rel = ''from ''" using z by simp
      moreover have "last (drop k rel) = last rel" using k by simp
      ultimately show False using l by simp
    qed
  next
    case quote
    then have "drop i ?T = dquote # t" by simp
    then show ?thesis by (simp add: match_import_not_f dquote_def)
  qed
qed

lemma rewrite_idempotent:
  assumes f: "is_norm_abs f" and fe: "suffix ''.ts'' f"
  shows "\<forall>g \<in> set (find_imports s). backslash \<notin> set g \<Longrightarrow>
         \<exists>t. re_sub_import (replace_import cwd [] f f) s = Inr t
            \<and> re_sub_import (replace_import cwd [] f f) t = Inr t"
proof (induction s rule: find_imports.induct)
  case 1
  show ?case by simp
next
  case (2 c cs)
  let ?repl = "replace_import cwd [] f f"
  have H: "\<And>g out. import_shaped g \<Longrightarrow> ?repl (from_kw @ g @ [dquote]) g = Inr out \<Longrightarrow> prefix from_kw out"
    by (rule replace_import_keeps_from)
  show ?case
  proof (cases "match_import (c # cs)")
    case None
    then have "\<forall>g \<in> set (find_imports cs). backslash \<notin> set g" using 2(3) by simp
    from 2(1)[OF None this] obtain t' where
      t': "re_sub_import ?repl cs = Inr t'" "re_sub_import ?repl t' = Inr t'" by blast
    have 1: "re_sub_import ?repl (c # cs) = Inr (c # t')" using None t'(1) by simp
    have "match_import (c # t') = None" by (rule re_sub_no_new_match[OF H None t'(1)])
    then have "re_sub_import ?repl (c # t') = Inr (c # t')" using t'(2) by simp
    then show ?thesis using 1 by blast
  next
    case (Some a)
    obtain g e where a: "a = (g, e)" by (cases a)
    have m: "match_import (c # cs) = Some (g, e)" using Some a by simp
    from match_import_Some[OF m] obtain rest where
      s: "c # cs = from_kw @ g @ dquote # rest" and sh: "import_shaped g" and e: "e = length g + 7"
      by blast
    have tk: "take e (c # cs) = from_kw @ g @ [dquote]" by (simp add: s e)
    have dr: "drop e (c # cs) = rest" by (simp add: s e)
    have "1 \<le> e" using e by simp
    then have dr': "drop (e - 1) cs = rest" using dr by (cases e) auto
    have fi: "find_imports (c # cs) = g # find_imports rest" using m dr' by simp
    have nb: "backslash \<notin> set g" and nbr: "\<forall>g \<in> set (find_imports rest). backslash \<notin> set g"
      using 2(3) fi by simp_all
    from rewritten_import[OF f fe sh nb, of cwd] obtain rel where
      rel: "make_relative cwd f (resolve_import f g) = Inr rel"
        "resolve_import f rel = resolve_import f g" "rel \<noteq> []"
        "suffix ''.js'' rel \<or> last rel = dot" "dquote \<notin> set rel" by blast
    have out: "?repl (take e (c # cs)) g = Inr (from_kw @ rel @ [dquote])"
      unfolding tk by (rule replace_import_empty[OF sh rel(1)])
    from 2(2)[OF m refl] nbr dr' obtain t' where
      t': "re_sub_import ?repl rest = Inr t'" "re_sub_import ?repl t' = Inr t'" by auto
    let ?P = "from_kw @ rel @ [dquote]"
    have 1: "re_sub_import ?repl (c # cs) = Inr (?P @ t')"
      using re_sub_match[OF m, of ?repl] out t'(1) dr by simp
    have "re_sub_import ?repl (?P @ t') = Inr (?P @ t')"
    proof (cases "import_shaped rel")
      case True
      have m2: "match_import (?P @ t') = Some (rel, length rel + 7)"
        using match_import_shaped[OF True, of t'] by simp
      have "make_relative cwd f (resolve_import f rel) = Inr rel" using rel(1,2) by simp
      then have o2: "?repl (from_kw @ rel @ [dquote]) rel = Inr ?P"
        by (rule replace_import_empty[OF True])
      have tk2: "take (length rel + 7) (?P @ t') = ?P" by simp
      have dr2: "drop (length rel + 7) (?P @ t') = t'" by simp
      show ?thesis
        using re_sub_match[OF m2, of ?repl] by (simp only: tk2 dr2 o2 t'(2)) simp
    next
      case False
      have "last rel \<noteq> CHR '' ''"
        using rel(3,4) by (auto simp: suffix_def dot_def)
      from no_match_in_statement[OF rel(5) rel(3) this False, of t']
      have "re_sub_import ?repl (?P @ t')
            = (case re_sub_import ?repl t' of Inl e \<Rightarrow> Inl e | Inr u \<Rightarrow> Inr (?P @ u))"
        by (rule re_sub_skip)
      then show ?thesis using t'(2) by simp
    qed
    then show ?thesis using 1 by blast
  qed
qed


lemma translate_newlines_id: "cr \<notin> set s \<Longrightarrow> translate_newlines s = s"
  by (induction s rule: translate_newlines.induct) auto

lemma translate_newlines_no_cr: "cr \<notin> set (translate_newlines s)"
  by (induction s rule: translate_newlines.induct) (auto simp: cr_def newline_def)

lemma translate_newlines_mem:
  "c \<in> set s \<Longrightarrow> c \<noteq> cr \<Longrightarrow> c \<in> set (translate_newlines s)"
  by (induction s rule: translate_newlines.induct) (auto split: if_splits)

lemma translate_newlines_Nil [simp]: "translate_newlines s = [] \<longleftrightarrow> s = []"
  by (cases s rule: translate_newlines.cases) auto

lemma translate_newlines_Cons:
  "c \<noteq> cr \<Longrightarrow> translate_newlines (c # s) = c # translate_newlines s"
  by (cases s) auto

lemma translate_newlines_head:
  assumes "translate_newlines t = c # u" "c \<noteq> newline"
  shows "\<exists>u0. t = c # u0 \<and> translate_newlines u0 = u"
  using assms by (cases t rule: translate_newlines.cases) (auto split: if_splits)

lemma translate_newlines_split:
  "translate_newlines t = x @ c # u \<Longrightarrow> c \<noteq> newline \<Longrightarrow>
   \<exists>x0 u0. t = x0 @ c # u0 \<and> translate_newlines x0 = x \<and> translate_newlines u0 = u"
proof (induction t arbitrary: x rule: translate_newlines.induct)
  case 1
  then show ?case by simp
next
  case (2 a)
  then show ?case by (cases x) (auto split: if_splits)
next
  case (3 a d s)
  show ?case
  proof (cases x)
    case Nil
    with 3(4,5) translate_newlines_head[of "a # d # s" c u] show ?thesis by fastforce
  next
    case (Cons y x')
    consider (crlf) "a = cr" "d = newline" | (lone) "a = cr" "d \<noteq> newline" | (plain) "a \<noteq> cr" by blast
    then show ?thesis
    proof cases
      case crlf
      then have "translate_newlines s = x' @ c # u" "y = newline" using 3(4) Cons by auto
      have both: "a = cr \<and> d = newline" using crlf by simp
      from 3(1)[OF both \<open>translate_newlines s = x' @ c # u\<close> 3(5)] obtain x0 u0 where
        "s = x0 @ c # u0" "translate_newlines x0 = x'" "translate_newlines u0 = u" by blast
      then have "a # d # s = (a # d # x0) @ c # u0 \<and> translate_newlines (a # d # x0) = x
                 \<and> translate_newlines u0 = u"
        using crlf Cons \<open>y = newline\<close> by simp
      then show ?thesis by blast
    next
      case lone
      then have e: "translate_newlines (d # s) = x' @ c # u" "y = newline" using 3(4) Cons by auto
      have "\<not> (a = cr \<and> d = newline)" using lone by simp
      from 3(2)[OF this lone(1) e(1) 3(5)] obtain x0 u0 where
        x0: "d # s = x0 @ c # u0" "translate_newlines x0 = x'" "translate_newlines u0 = u" by blast
      have "translate_newlines (a # x0) = newline # translate_newlines x0"
      proof (cases x0)
        case Nil then show ?thesis using lone by simp
      next
        case (Cons z zs)
        then have "z = d" using x0(1) by simp
        then show ?thesis using lone Cons by simp
      qed
      then have "a # d # s = (a # x0) @ c # u0 \<and> translate_newlines (a # x0) = x
                 \<and> translate_newlines u0 = u"
        using x0 Cons e(2) by simp
      then show ?thesis by blast
    next
      case plain
      then have e: "translate_newlines (d # s) = x' @ c # u" "y = a" using 3(4) Cons by auto
      have "\<not> (a = cr \<and> d = newline)" using plain by simp
      from 3(3)[OF this plain e(1) 3(5)] obtain x0 u0 where
        x0: "d # s = x0 @ c # u0" "translate_newlines x0 = x'" "translate_newlines u0 = u" by blast
      have "translate_newlines (a # x0) = a # translate_newlines x0"
        using plain by (rule translate_newlines_Cons)
      then have "a # d # s = (a # x0) @ c # u0 \<and> translate_newlines (a # x0) = x
                 \<and> translate_newlines u0 = u"
        using x0 Cons e(2) by simp
      then show ?thesis by blast
    qed
  qed
qed

lemma translate_newlines_literal:
  "translate_newlines t = lit @ v \<Longrightarrow> newline \<notin> set lit \<Longrightarrow>
   \<exists>v0. t = lit @ v0 \<and> translate_newlines v0 = v"
proof (induction lit arbitrary: t)
  case Nil
  then show ?case by simp
next
  case (Cons c lit)
  from Cons.prems have "translate_newlines t = c # (lit @ v)" "c \<noteq> newline" by auto
  from translate_newlines_head[OF this] obtain u0 where
    u0: "t = c # u0" "translate_newlines u0 = lit @ v" by blast
  from Cons.IH[OF u0(2)] Cons.prems(2) obtain v0 where "u0 = lit @ v0" "translate_newlines v0 = v"
    by auto
  then show ?case using u0 by simp
qed

lemma translate_newlines_suffix:
  "suffix u (translate_newlines s) \<Longrightarrow> \<exists>t. suffix t s \<and> u = translate_newlines t"
proof (induction s rule: translate_newlines.induct)
  case 1
  then show ?case by simp
next
  case (2 c)
  then show ?case
    by (metis suffix_Cons suffix_Nil suffix_order.order_refl translate_newlines.simps(1) translate_newlines.simps(2))
next
  case (3 c d s)
  show ?case
  proof (cases "u = translate_newlines (c # d # s)")
    case True
    then show ?thesis by blast
  next
    case False
    consider (crlf) "c = cr" "d = newline" | (other) "\<not> (c = cr \<and> d = newline)" by blast
    then show ?thesis
    proof cases
      case crlf
      then have "suffix u (translate_newlines s)" using 3(4) False by (simp add: suffix_Cons)
      moreover have "c = cr \<and> d = newline" using crlf by simp
      ultimately obtain t where "suffix t s" "u = translate_newlines t" using 3(1) by blast
      then have "suffix t (c # d # s) \<and> u = translate_newlines t" by (simp add: suffix_Cons)
      then show ?thesis by blast
    next
      case other
      then have "suffix u (translate_newlines (d # s))" using 3(4) False
        by (auto simp: suffix_Cons split: if_splits)
      then obtain t where "suffix t (d # s)" "u = translate_newlines t"
        using 3(2,3) other by (cases "c = cr") blast+
      then have "suffix t (c # d # s) \<and> u = translate_newlines t" by (simp add: suffix_Cons)
      then show ?thesis by blast
    qed
  qed
qed

lemma find_imports_Nil_iff:
  "find_imports s = [] \<longleftrightarrow> (\<forall>t. suffix t s \<longrightarrow> match_import t = None)"
proof (induction s)
  case Nil
  show ?case by (simp add: match_import_def from_kw_def)
next
  case (Cons c cs)
  show ?case
    by (auto simp: Cons.IH suffix_Cons split: option.splits)
qed

lemma import_shaped_split:
  "import_shaped g \<longleftrightarrow>
     (\<exists>p a. (p = ''./'' \<or> p = ''../'') \<and> g = p @ a @ ''.js'' \<and> a \<noteq> [] \<and> dquote \<notin> set a)"
proof
  assume "import_shaped g"
  then consider "prefix ''./'' g" "import_body (drop 2 g)" | "prefix ''../'' g" "import_body (drop 3 g)"
    unfolding import_shaped_def by blast
  then show "\<exists>p a. (p = ''./'' \<or> p = ''../'') \<and> g = p @ a @ ''.js'' \<and> a \<noteq> [] \<and> dquote \<notin> set a"
  proof cases
    case 1
    from 1(1) obtain b where b: "g = ''./'' @ b" by (auto simp: prefix_def)
    with 1(2) have "import_body b" by simp
    then obtain a where "b = a @ ''.js''" "a \<noteq> []" "dquote \<notin> set a"
      unfolding import_body_split by blast
    then show ?thesis using b by blast
  next
    case 2
    from 2(1) obtain b where b: "g = ''../'' @ b" by (auto simp: prefix_def)
    with 2(2) have "import_body b" by simp
    then obtain a where "b = a @ ''.js''" "a \<noteq> []" "dquote \<notin> set a"
      unfolding import_body_split by blast
    then show ?thesis using b by blast
  qed
next
  assume "\<exists>p a. (p = ''./'' \<or> p = ''../'') \<and> g = p @ a @ ''.js'' \<and> a \<noteq> [] \<and> dquote \<notin> set a"
  then obtain p a where p: "p = ''./'' \<or> p = ''../''" and g: "g = p @ a @ ''.js''"
    and a: "a \<noteq> []" "dquote \<notin> set a" by blast
  have b: "import_body (a @ ''.js'')" unfolding import_body_split using a by blast
  from p show "import_shaped g"
  proof
    assume "p = ''./''"
    then show ?thesis using g b by (simp add: import_shaped_def)
  next
    assume "p = ''../''"
    then show ?thesis using g b by (simp add: import_shaped_def)
  qed
qed

lemma match_import_translate:
  assumes "match_import (translate_newlines t) = Some (g, e)"
  shows "match_import t \<noteq> None"
proof -
  from match_import_Some[OF assms] obtain rest where
    tn: "translate_newlines t = from_kw @ g @ dquote # rest" and sh: "import_shaped g" by blast
  from sh obtain p a where p: "p = ''./'' \<or> p = ''../''" and g: "g = p @ a @ ''.js''"
    and a: "a \<noteq> []" "dquote \<notin> set a" unfolding import_shaped_split by blast
  define lit where "lit = from_kw @ p"
  have nl: "newline \<notin> set lit"
    using p by (auto simp: lit_def from_kw_def newline_def dquote_def)
  have "translate_newlines t = lit @ (a @ dot # (''js'' @ dquote # rest))"
    using tn g by (simp add: lit_def dot_def)
  from translate_newlines_literal[OF this nl] obtain v0 where
    v0: "t = lit @ v0" "translate_newlines v0 = a @ dot # (''js'' @ dquote # rest)" by blast
  have "dot \<noteq> newline" by (simp add: dot_def newline_def)
  from translate_newlines_split[OF v0(2) this] obtain a0 u0 where
    a0: "v0 = a0 @ dot # u0" "translate_newlines a0 = a"
        "translate_newlines u0 = ''js'' @ dquote # rest" by blast
  have "translate_newlines u0 = (''js'' @ [dquote]) @ rest" "newline \<notin> set (''js'' @ [dquote])"
    using a0(3) by (simp_all add: newline_def dquote_def)
  from translate_newlines_literal[OF this] obtain rest0 where
    r0: "u0 = (''js'' @ [dquote]) @ rest0" by blast
  have ne: "a0 \<noteq> []" using a0(2) a(1) by auto
  have nq: "dquote \<notin> set a0"
  proof
    assume "dquote \<in> set a0"
    moreover have "dquote \<noteq> cr" by (simp add: dquote_def cr_def)
    ultimately have "dquote \<in> set (translate_newlines a0)" by (rule translate_newlines_mem)
    then show False using a0(2) a(2) by simp
  qed
  have sh0: "import_shaped (p @ a0 @ ''.js'')"
    unfolding import_shaped_split using p ne nq by blast
  have "t = from_kw @ (p @ a0 @ ''.js'') @ dquote # rest0"
    using v0(1) a0(1) r0 by (simp add: lit_def dot_def)
  then show ?thesis using match_import_shaped[OF sh0, of rest0] by simp
qed

lemma find_imports_translate:
  assumes "find_imports s = []"
  shows "find_imports (translate_newlines s) = []"
  unfolding find_imports_Nil_iff
proof (intro allI impI)
  fix u assume "suffix u (translate_newlines s)"
  from translate_newlines_suffix[OF this] obtain t where t: "suffix t s" "u = translate_newlines t"
    by blast
  then have "match_import t = None" using assms unfolding find_imports_Nil_iff by blast
  then show "match_import u = None"
    using match_import_translate[of t] t(2) by (cases "match_import u") auto
qed

lemma compute_updates_reads:
  "compute_updates cwd moves disk fs upd = Inr upd' \<Longrightarrow> f \<in> set fs \<Longrightarrow>
   \<exists>c. read_text disk f = Inr c"
  by (induction fs arbitrary: upd) (auto simp: Let_def split: sum.splits)

lemma planned_updates_reads:
  assumes "planned_updates en moves_raw w = Inr upd" "f \<in> set (collect_files (walk en))"
  shows "\<exists>c. read_text (files w) f = Inr c"
  using compute_updates_reads[OF assms(1)[unfolded planned_updates_def] assms(2)] .


section \<open>Claims about the path functions\<close>

text \<open>
  C1, as stated, fails: \<^verbatim>\<open>make_relative\<close> turns every backslash of the relative path
  into a slash, so a target whose name contains a backslash is not reproduced.  Both paths
  below are absolute, normalized and end in \<^verbatim>\<open>.ts\<close>.
\<close>

theorem round_trip_backslash_counterexample:
  "is_norm_abs ''/d/x.ts'' \<and> suffix ''.ts'' ''/d/x.ts''
   \<and> is_norm_abs (''/d/a'' @ [backslash] @ ''b.ts'') \<and> suffix ''.ts'' (''/d/a'' @ [backslash] @ ''b.ts'')
   \<and> make_relative ''/'' ''/d/x.ts'' (''/d/a'' @ [backslash] @ ''b.ts'') = Inr ''./a/b.js''
   \<and> resolve_import ''/d/x.ts'' ''./a/b.js'' \<noteq> ''/d/a'' @ [backslash] @ ''b.ts''"
  by code_simp

text \<open>
  C1, amended: for normalized absolute paths \<open>from_file\<close> and \<open>to_file\<close> that end in
  \<^verbatim>\<open>.ts\<close> and begin with the same number of slashes, \<open>to_file\<close> without a backslash,
  \<^verbatim>\<open>make_relative\<close> returns a string and resolving it from \<open>from_file\<close> gives \<open>to_file\<close>.
  In particular, when every destination of the move mapping is such a path and so is the
  referencing file, the reference rewritten for an import whose target is a key of the
  mapping, resolved from the referencing file's new location, is the target's new
  location \<^verbatim>\<open>new_path_of(target, moves)\<close>.
\<close>

theorem make_relative_round_trip:
  "(is_norm_abs from_file \<and> is_norm_abs to_file
      \<and> initial_slashes from_file = initial_slashes to_file
      \<and> suffix ''.ts'' from_file \<and> suffix ''.ts'' to_file \<and> backslash \<notin> set to_file
    \<longrightarrow> (\<exists>rel. make_relative cwd from_file to_file = Inr rel
               \<and> resolve_import from_file rel = to_file))
   \<and> (list_all (\<lambda>(k, v). ts_path r v) moves \<and> ts_path r old_abs
        \<and> map_of moves (resolve_import old_abs import_path) \<noteq> None
      \<longrightarrow> (\<exists>new_rel.
             make_relative cwd (new_path_of old_abs moves)
               (new_path_of (resolve_import old_abs import_path) moves) = Inr new_rel
             \<and> resolve_import (new_path_of old_abs moves) new_rel
                 = new_path_of (resolve_import old_abs import_path) moves))"
proof (intro conjI impI)
  assume "is_norm_abs from_file \<and> is_norm_abs to_file
      \<and> initial_slashes from_file = initial_slashes to_file
      \<and> suffix ''.ts'' from_file \<and> suffix ''.ts'' to_file \<and> backslash \<notin> set to_file"
  then show "\<exists>rel. make_relative cwd from_file to_file = Inr rel
               \<and> resolve_import from_file rel = to_file"
    using round_trip_paths[of from_file to_file cwd] by blast
next
  let ?target = "resolve_import old_abs import_path"
  assume a: "list_all (\<lambda>(k, v). ts_path r v) moves \<and> ts_path r old_abs
        \<and> map_of moves ?target \<noteq> None"
  then have vals: "\<And>k v. map_of moves k = Some v \<Longrightarrow> ts_path r v"
    by (auto simp: list_all_iff dest!: map_of_SomeD)
  have nt: "normpath ?target = ?target"
    by (use a resolve_import_norm_abs[of old_abs import_path] in \<open>simp add: ts_path_def is_norm_abs_def\<close>)
  from a obtain d where d: "map_of moves ?target = Some d" by auto
  have tgt: "ts_path r (new_path_of ?target moves)"
    using vals[OF d] by (simp add: new_path_of_def dict_get_def nt d)
  have "normpath old_abs = old_abs" using a by (simp add: ts_path_def is_norm_abs_def)
  then have src: "ts_path r (new_path_of old_abs moves)"
    using a vals by (auto simp: new_path_of_def dict_get_def split: option.splits)
  show "\<exists>new_rel.
             make_relative cwd (new_path_of old_abs moves) (new_path_of ?target moves) = Inr new_rel
             \<and> resolve_import (new_path_of old_abs moves) new_rel = new_path_of ?target moves"
    using src tgt
      round_trip_paths[of "new_path_of old_abs moves" "new_path_of ?target moves" cwd]
    by (simp add: ts_path_def)
qed

theorem make_relative_round_trip_witness:
  "(\<exists>rel. make_relative ''/'' ''/r/src/b.ts'' ''/r/src/sub/a.ts'' = Inr rel
          \<and> resolve_import ''/r/src/b.ts'' rel = ''/r/src/sub/a.ts'')
   \<and> (\<exists>new_rel.
         make_relative ''/'' (new_path_of ''/r/src/b.ts'' [(''/r/src/a.ts'', ''/r/src/sub/a.ts'')])
           (new_path_of (resolve_import ''/r/src/b.ts'' ''./a.js'')
              [(''/r/src/a.ts'', ''/r/src/sub/a.ts'')]) = Inr new_rel
         \<and> resolve_import (new_path_of ''/r/src/b.ts'' [(''/r/src/a.ts'', ''/r/src/sub/a.ts'')]) new_rel
             = new_path_of (resolve_import ''/r/src/b.ts'' ''./a.js'')
                 [(''/r/src/a.ts'', ''/r/src/sub/a.ts'')])"
proof -
  have h1: "is_norm_abs ''/r/src/b.ts'' \<and> is_norm_abs ''/r/src/sub/a.ts''
      \<and> initial_slashes ''/r/src/b.ts'' = initial_slashes ''/r/src/sub/a.ts''
      \<and> suffix ''.ts'' ''/r/src/b.ts'' \<and> suffix ''.ts'' ''/r/src/sub/a.ts''
      \<and> backslash \<notin> set ''/r/src/sub/a.ts''"
    by code_simp
  have h2: "list_all (\<lambda>(k, v). ts_path 1 v) [(''/r/src/a.ts'', ''/r/src/sub/a.ts'')]
      \<and> ts_path 1 ''/r/src/b.ts''
      \<and> map_of [(''/r/src/a.ts'', ''/r/src/sub/a.ts'')] (resolve_import ''/r/src/b.ts'' ''./a.js'') \<noteq> None"
    by code_simp
  show ?thesis
    using h1 h2
      make_relative_round_trip[of "''/r/src/b.ts''" "''/r/src/sub/a.ts''" "''/''" 1
        "[(''/r/src/a.ts'', ''/r/src/sub/a.ts'')]" "''/r/src/b.ts''" "''./a.js''"]
    by blast
qed

text \<open>
  C3: a normalized path (a fixed point of \<^verbatim>\<open>normpath\<close>) that is not a key of the move
  mapping is returned unchanged by \<^verbatim>\<open>new_path_of\<close>; for a key, the mapped destination
  is returned.
\<close>

theorem new_path_of_identity_default:
  "normpath p = p \<Longrightarrow>
     (map_of moves p = None \<longrightarrow> new_path_of p moves = p)
     \<and> (\<forall>d. map_of moves p = Some d \<longrightarrow> new_path_of p moves = d)"
  by (simp add: new_path_of_def dict_get_def)

theorem new_path_of_identity_default_witness:
  "normpath ''/r/src/b.ts'' = ''/r/src/b.ts''
   \<and> map_of [(''/r/src/a.ts'', ''/r/src/sub/a.ts'')] ''/r/src/b.ts'' = None
   \<and> new_path_of ''/r/src/b.ts'' [(''/r/src/a.ts'', ''/r/src/sub/a.ts'')] = ''/r/src/b.ts''
   \<and> normpath ''/r/src/a.ts'' = ''/r/src/a.ts''
   \<and> map_of [(''/r/src/a.ts'', ''/r/src/sub/a.ts'')] ''/r/src/a.ts'' = Some ''/r/src/sub/a.ts''
   \<and> new_path_of ''/r/src/a.ts'' [(''/r/src/a.ts'', ''/r/src/sub/a.ts'')] = ''/r/src/sub/a.ts''"
proof -
  have n1: "normpath ''/r/src/b.ts'' = ''/r/src/b.ts''" by code_simp
  have n2: "normpath ''/r/src/a.ts'' = ''/r/src/a.ts''" by code_simp
  have m1: "map_of [(''/r/src/a.ts'', ''/r/src/sub/a.ts'')] ''/r/src/b.ts'' = None" by simp
  have m2: "map_of [(''/r/src/a.ts'', ''/r/src/sub/a.ts'')] ''/r/src/a.ts'' = Some ''/r/src/sub/a.ts''"
    by simp
  show ?thesis
    using new_path_of_identity_default[OF n1, of "[(''/r/src/a.ts'', ''/r/src/sub/a.ts'')]"]
      new_path_of_identity_default[OF n2, of "[(''/r/src/a.ts'', ''/r/src/sub/a.ts'')]"]
      n1 n2 m1 m2
    by blast
qed

text \<open>
  C7: \<^verbatim>\<open>make_relative\<close> tests \<^verbatim>\<open>rel.startswith('.')\<close>, not the markers \<^verbatim>\<open>./\<close> and
  \<^verbatim>\<open>../\<close>.  For a target whose file name begins with a dot the relative path is returned
  without a marker, and an import of it is rewritten into a string that the import pattern
  of the script itself no longer recognises as relative, with an empty move mapping already.
\<close>

theorem make_relative_dotfile_unmarked:
  "make_relative ''/'' ''/r/src/x.ts'' ''/r/src/.hidden.ts'' = Inr ''.hidden.js''
   \<and> \<not> prefix ''./'' ''.hidden.js'' \<and> \<not> prefix ''../'' ''.hidden.js''
   \<and> rewrite_imports ''/'' [] ''/r/src/x.ts'' (''import h from '' @ [dquote] @ ''./.hidden.js'' @ [dquote])
       = Inr (''import h from '' @ [dquote] @ ''.hidden.js'' @ [dquote])
   \<and> find_imports (''import h from '' @ [dquote] @ ''.hidden.js'' @ [dquote]) = []"
  by code_simp

section \<open>Claims about the run\<close>

text \<open>
  C2: the two scenarios, run end to end from the command line with the mapping
  \<^verbatim>\<open>{"a.ts": "sub/a.ts"}\<close> on a tree with \<^verbatim>\<open>a.ts\<close> (importing \<^verbatim>\<open>"./b.js"\<close>) and
  \<^verbatim>\<open>b.ts\<close> (importing \<^verbatim>\<open>"./a.js"\<close>).  The run succeeds; afterwards the unmoved
  \<^verbatim>\<open>b.ts\<close> imports \<^verbatim>\<open>"./sub/a.js"\<close>, and the moved file, now at \<^verbatim>\<open>sub/a.ts\<close>, imports
  \<^verbatim>\<open>"../b.js"\<close>.
\<close>

theorem scenarios_one_and_two:
  "fst (main two_files_env [(''a.ts'', ''sub/a.ts'')] two_files_world) = None
   \<and> files (snd (main two_files_env [(''a.ts'', ''sub/a.ts'')] two_files_world)) ''/r/src/b.ts''
       = Some (import_line ''{ a }'' ''./sub/a.js'')
   \<and> files (snd (main two_files_env [(''a.ts'', ''sub/a.ts'')] two_files_world)) ''/r/src/sub/a.ts''
       = Some (import_line ''{ b }'' ''../b.js'')
   \<and> files (snd (main two_files_env [(''a.ts'', ''sub/a.ts'')] two_files_world)) ''/r/src/a.ts'' = None"
  by code_simp




text \<open>
  C6, as stated, fails: a file is read as text, which turns every \<^verbatim>\<open>\r\n\<close> and every
  other \<^verbatim>\<open>\r\<close> into \<^verbatim>\<open>\n\<close>, and a moved file is written back from that text whether
  or not an import changed.  The run below moves \<^verbatim>\<open>a.ts\<close>, whose only line holds no
  relative import and ends in \<^verbatim>\<open>\r\n\<close>: what is written at the destination ends in
  \<^verbatim>\<open>\n\<close>.
\<close>

theorem moved_file_crlf_counterexample:
  "''/r/src/a.ts'' \<in> set (collect_files (walk lone_file_env))
   \<and> files crlf_file_world ''/r/src/a.ts'' = Some (crlf_line ''fs'' ''node:fs'')
   \<and> find_imports (crlf_line ''fs'' ''node:fs'') = []
   \<and> fst (main lone_file_env [(''a.ts'', ''sub/a.ts'')] crlf_file_world) = None
   \<and> filter is_write (events (snd (main lone_file_env [(''a.ts'', ''sub/a.ts'')] crlf_file_world)))
       = [WriteFile ''/r/src/sub/a.ts'' (import_line ''fs'' ''node:fs'')]
   \<and> files (snd (main lone_file_env [(''a.ts'', ''sub/a.ts'')] crlf_file_world)) ''/r/src/sub/a.ts''
       = Some (import_line ''fs'' ''node:fs'')
   \<and> import_line ''fs'' ''node:fs'' \<noteq> crlf_line ''fs'' ''node:fs''"
  by code_simp

text \<open>
  C6, amended: a discovered file whose content holds no match of the import pattern is
  read without one, and its text is rewritten to itself, whatever the move mapping is.
  When the file is moved, its entry in the updates mapping is its destination with that
  text, the original content with every \<^verbatim>\<open>\r\n\<close> and every other \<^verbatim>\<open>\r\<close> replaced by
  \<^verbatim>\<open>\n\<close>, and that is what a successful run writes: the writes of the run are exactly
  the entries of the updates mapping, in order.  When it is not moved it has no entry.  For
  a content without \<^verbatim>\<open>\r\<close> the text is the content itself.
\<close>

theorem no_imports_content_as_read:
  assumes "planned_updates en moves_raw w = Inr upd"
    and "f \<in> set (collect_files (walk en))"
    and "files w f = Some original"
    and "find_imports original = []"
  shows "read_text (files w) f = Inr (translate_newlines original)
       \<and> rewrite_imports (getcwd en) (normalize_moves moves_raw) f (translate_newlines original)
           = Inr (translate_newlines original)
       \<and> map_of upd f = (if f \<noteq> new_path_of f (normalize_moves moves_raw)
                          then Some (new_path_of f (normalize_moves moves_raw), translate_newlines original)
                          else None)
       \<and> (\<forall>w'. run en moves_raw w = (None, w') \<longrightarrow>
             filter is_write (events w')
               = filter is_write (events w) @ map (\<lambda>(old, new, c). WriteFile new c) upd)
       \<and> (cr \<notin> set original \<longrightarrow> translate_newlines original = original)"
proof -
  let ?text = "translate_newlines original"
  from planned_updates_reads[OF assms(1,2)] obtain c where "read_text (files w) f = Inr c" by blast
  then have rd: "read_text (files w) f = Inr ?text"
    using assms(3) by (simp add: read_text_def split: if_splits)
  have ni: "find_imports ?text = []" by (rule find_imports_translate[OF assms(4)])
  have r: "rewrite_imports (getcwd en) (normalize_moves moves_raw) f ?text = Inr ?text"
    unfolding rewrite_imports_def by (rule re_sub_no_imports[OF ni])
  have "map_of upd f = update_entry (getcwd en) (normalize_moves moves_raw) (files w) f"
    by (rule planned_updates_entry[OF assms(1,2)])
  then have m: "map_of upd f = (if f \<noteq> new_path_of f (normalize_moves moves_raw)
                          then Some (new_path_of f (normalize_moves moves_raw), ?text) else None)"
    by (simp add: update_entry_def rd r)
  have t: "cr \<notin> set original \<longrightarrow> ?text = original"
    by (simp add: translate_newlines_id)
  show ?thesis using rd r m t run_success_writes[OF assms(1)] by blast
qed

theorem no_imports_content_as_read_witness:
  "planned_updates lone_file_env [(''/r/src/a.ts'', ''/r/src/sub/a.ts'')] lone_file_world
     = Inr [(''/r/src/a.ts'', ''/r/src/sub/a.ts'', import_line ''fs'' ''node:fs'')]
   \<and> ''/r/src/a.ts'' \<in> set (collect_files (walk lone_file_env))
   \<and> files lone_file_world ''/r/src/a.ts'' = Some (import_line ''fs'' ''node:fs'')
   \<and> find_imports (import_line ''fs'' ''node:fs'') = []
   \<and> cr \<notin> set (import_line ''fs'' ''node:fs'')
   \<and> translate_newlines (import_line ''fs'' ''node:fs'') = import_line ''fs'' ''node:fs''
   \<and> read_text (files lone_file_world) ''/r/src/a.ts'' = Inr (import_line ''fs'' ''node:fs'')
   \<and> rewrite_imports (getcwd lone_file_env) (normalize_moves [(''/r/src/a.ts'', ''/r/src/sub/a.ts'')])
        ''/r/src/a.ts'' (import_line ''fs'' ''node:fs'') = Inr (import_line ''fs'' ''node:fs'')
   \<and> fst (run lone_file_env [(''/r/src/a.ts'', ''/r/src/sub/a.ts'')] lone_file_world) = None
   \<and> filter is_write (events (snd (run lone_file_env [(''/r/src/a.ts'', ''/r/src/sub/a.ts'')] lone_file_world)))
       = [WriteFile ''/r/src/sub/a.ts'' (import_line ''fs'' ''node:fs'')]"
proof -
  let ?m = "[(''/r/src/a.ts'', ''/r/src/sub/a.ts'')]"
  let ?c = "import_line ''fs'' ''node:fs''"
  have h1: "planned_updates lone_file_env ?m lone_file_world
     = Inr [(''/r/src/a.ts'', ''/r/src/sub/a.ts'', ?c)]"
    by code_simp
  have h2: "''/r/src/a.ts'' \<in> set (collect_files (walk lone_file_env))" by code_simp
  have h3: "files lone_file_world ''/r/src/a.ts'' = Some ?c" by code_simp
  have h4: "find_imports ?c = []" by code_simp
  have h5: "cr \<notin> set ?c" by code_simp
  have ok: "fst (run lone_file_env ?m lone_file_world) = None" by code_simp
  then have run: "run lone_file_env ?m lone_file_world
                  = (None, snd (run lone_file_env ?m lone_file_world))"
    by (metis prod.collapse)
  have e0: "events lone_file_world = []" by code_simp
  from no_imports_content_as_read[OF h1 h2 h3 h4] h5 have t: "translate_newlines ?c = ?c"
    by blast
  show ?thesis
    using no_imports_content_as_read[OF h1 h2 h3 h4] h1 h2 h3 h4 h5 ok run e0 unfolding t by simp
qed

text \<open>
  C8: the first count of the summary is \<^verbatim>\<open>len(moves)\<close>, the second is
  \<^verbatim>\<open>len(updates)\<close>, and a moved file is put into \<^verbatim>\<open>updates\<close> whether or not its
  content changed (line 50).  The run below moves one file without any relative import:
  its content is written back unchanged, no import is updated anywhere, and the summary
  reports imports updated in one file.
\<close>

theorem summary_counts_moved_file_as_updated:
  "fst (main lone_file_env [(''a.ts'', ''sub/a.ts'')] lone_file_world) = None
   \<and> find_imports (import_line ''fs'' ''node:fs'') = []
   \<and> files lone_file_world ''/r/src/a.ts'' = Some (import_line ''fs'' ''node:fs'')
   \<and> files (snd (main lone_file_env [(''a.ts'', ''sub/a.ts'')] lone_file_world)) ''/r/src/sub/a.ts''
       = Some (import_line ''fs'' ''node:fs'')
   \<and> last (events (snd (main lone_file_env [(''a.ts'', ''sub/a.ts'')] lone_file_world)))
       = Print (newline # ''Moved 1 files, updated imports in 1 files.'')"
  by code_simp



text \<open>
  C10: the trace of every run, whatever its outcome, splits into a first part without a
  write and a second part without a \<^verbatim>\<open>git mv\<close>: the writes come after the moves.  When
  the run ends with the error of a failed move command, the second part is empty: no file
  was written, the run stopped inside the loop over the moves, and its final state is the
  state that loop left.  If \<^verbatim>\<open>git mv\<close> only relocates files, every content on disk then
  is a content that was on disk before the run.
\<close>

theorem writes_follow_moves:
  assumes "run en moves_raw w = (res, w')"
  shows "\<exists>mv wr. events w' = events w @ mv @ wr
           \<and> (\<forall>e \<in> set mv. \<not> is_write e) \<and> (\<forall>e \<in> set wr. \<not> is_git_mv e)
           \<and> ((\<exists>a b. res = Some (CalledProcessError a b)) \<longrightarrow>
                 wr = []
                 \<and> apply_moves en (normalize_moves moves_raw) (dirname (base en))
                      (sort (map fst (normalize_moves moves_raw))) w = (res, w')
                 \<and> (git_mv en = relocate \<longrightarrow> ran (files w') \<subseteq> ran (files w)))"
proof -
  let ?moves = "normalize_moves moves_raw"
  let ?rr = "dirname (base en)"
  let ?ks = "sort (map fst ?moves)"
  show ?thesis
  proof (cases "compute_updates (getcwd en) ?moves (files w) (collect_files (walk en)) []")
    case (Inl e)
    then have "res = Some e" "w' = w" using assms by (simp_all add: run_def Let_def)
    moreover have "\<forall>a b. e \<noteq> CalledProcessError a b" by (rule compute_updates_error[OF Inl])
    ultimately have "events w' = events w @ [] @ [] \<and> (\<forall>e \<in> set []. \<not> is_write e)
      \<and> (\<forall>e \<in> set []. \<not> is_git_mv e) \<and> \<not> (\<exists>a b. res = Some (CalledProcessError a b))"
      by simp
    then show ?thesis by blast
  next
    case (Inr upd)
    obtain r1 w1 where a: "apply_moves en ?moves ?rr ?ks w = (r1, w1)"
      by (cases "apply_moves en ?moves ?rr ?ks w")
    obtain mv where mv: "events w1 = events w @ mv" "\<forall>e \<in> set mv. \<not> is_write e"
      using apply_moves_events[OF a] by blast
    show ?thesis
    proof (cases r1)
      case (Some e)
      then have rw: "res = r1" "w' = w1" using assms Inr a by (simp_all add: run_def Let_def)
      have "git_mv en = relocate \<longrightarrow> ran (files w1) \<subseteq> ran (files w)"
        using apply_moves_relocate_contents[OF _ a] by blast
      then have "events w' = events w @ mv @ [] \<and> (\<forall>e \<in> set mv. \<not> is_write e)
        \<and> (\<forall>e \<in> set []. \<not> is_git_mv e)
        \<and> ([] = ([] :: event list) \<and> apply_moves en ?moves ?rr ?ks w = (res, w')
            \<and> (git_mv en = relocate \<longrightarrow> ran (files w') \<subseteq> ran (files w)))"
        using mv a rw by simp
      then show ?thesis by blast
    next
      case None
      obtain r2 w2 where f: "flush_updates en ?rr upd w1 = (r2, w2)"
        by (cases "flush_updates en ?rr upd w1")
      obtain wr where wr: "events w2 = events w1 @ wr" "\<forall>e \<in> set wr. \<not> is_git_mv e"
        using flush_updates_events[OF f] by blast
      show ?thesis
      proof (cases r2)
        case (Some e)
        then have rw: "res = Some e" "w' = w2"
          using assms Inr a None f by (simp_all add: run_def Let_def)
        have "\<forall>a b. e \<noteq> CalledProcessError a b" using flush_updates_error f Some by blast
        then have "events w' = events w @ mv @ wr \<and> (\<forall>e \<in> set mv. \<not> is_write e)
          \<and> (\<forall>e \<in> set wr. \<not> is_git_mv e) \<and> \<not> (\<exists>a b. res = Some (CalledProcessError a b))"
          using mv wr rw by simp
        then show ?thesis by blast
      next
        case n2: None
        let ?s = "Print (summary (length ?moves) (length upd))"
        have rw: "res = None" "w' = log ?s w2"
          using assms Inr a None f n2 by (simp_all add: run_def Let_def)
        have "events w' = events w @ mv @ (wr @ [?s]) \<and> (\<forall>e \<in> set mv. \<not> is_write e)
          \<and> (\<forall>e \<in> set (wr @ [?s]). \<not> is_git_mv e)
          \<and> \<not> (\<exists>a b. res = Some (CalledProcessError a b))"
          using mv wr rw by simp
        then show ?thesis by blast
      qed
    qed
  qed
qed

theorem writes_follow_moves_witness:
  "fst (run two_files_env three_moves two_files_world)
     = Some (CalledProcessError ''/r/src/c.ts'' ''/r/src/sub/c.ts'')
   \<and> git_mv two_files_env = relocate
   \<and> (\<exists>mv wr. events (snd (run two_files_env three_moves two_files_world))
                 = events two_files_world @ mv @ wr
           \<and> (\<forall>e \<in> set mv. \<not> is_write e) \<and> (\<forall>e \<in> set wr. \<not> is_git_mv e)
           \<and> wr = []
           \<and> ran (files (snd (run two_files_env three_moves two_files_world)))
               \<subseteq> ran (files two_files_world))"
proof -
  let ?r = "run two_files_env three_moves two_files_world"
  have res: "fst ?r = Some (CalledProcessError ''/r/src/c.ts'' ''/r/src/sub/c.ts'')"
    by code_simp
  have g: "git_mv two_files_env = relocate"
    by (simp add: two_files_env_def scenario_env_def)
  have "?r = (fst ?r, snd ?r)" by simp
  from writes_follow_moves[OF this] res g show ?thesis by auto
qed

text \<open>
  C4, as stated, fails: \<^verbatim>\<open>make_relative\<close> turns the backslashes of the relative path
  into slashes, so the rewritten import can resolve to another file than the original one
  and is then rewritten again.  From \<^verbatim>\<open>/d/x.ts\<close>, with an empty move mapping, the import
  of \<^verbatim>\<open>../d\e/y.js\<close> becomes \<^verbatim>\<open>../d/e/y.js\<close>, and a second application turns that
  into \<^verbatim>\<open>./e/y.js\<close>.
\<close>

theorem rewrite_twice_backslash_counterexample:
  "rewrite_imports ''/'' [] ''/d/x.ts'' (import_line ''y'' (''../d'' @ [backslash] @ ''e/y.js''))
     = Inr (import_line ''y'' ''../d/e/y.js'')
   \<and> rewrite_imports ''/'' [] ''/d/x.ts'' (import_line ''y'' ''../d/e/y.js'')
     = Inr (import_line ''y'' ''./e/y.js'')
   \<and> import_line ''y'' ''./e/y.js'' \<noteq> import_line ''y'' ''../d/e/y.js''"
  by code_simp

text \<open>
  C4, amended: for a file whose path is absolute, normalized and ends in \<^verbatim>\<open>.ts\<close> (every
  discovered file is such a path) and a content whose relative imports contain no
  backslash, the rewrite with an empty move mapping succeeds, and applying it to its own
  result gives that result again; a second run, which reads that result from the file,
  therefore records no update for it.
\<close>

theorem rewrite_imports_idempotent:
  assumes "is_norm_abs f" and "suffix ''.ts'' f"
    and "\<forall>g \<in> set (find_imports c). backslash \<notin> set g"
  shows "\<exists>c'. rewrite_imports cwd [] f c = Inr c'
            \<and> rewrite_imports cwd [] f c' = Inr c'
            \<and> (\<forall>disk. read_text disk f = Inr c' \<longrightarrow> update_entry cwd [] disk f = None)"
proof -
  have nf: "new_path_of f [] = f"
    using assms(1) by (simp add: new_path_of_empty is_norm_abs_def)
  from rewrite_idempotent[OF assms(1,2,3), of cwd] obtain c' where
    c': "re_sub_import (replace_import cwd [] f f) c = Inr c'"
        "re_sub_import (replace_import cwd [] f f) c' = Inr c'" by blast
  then have r: "rewrite_imports cwd [] f c = Inr c'" "rewrite_imports cwd [] f c' = Inr c'"
    by (simp_all add: rewrite_imports_def nf)
  then have "\<forall>disk. read_text disk f = Inr c' \<longrightarrow> update_entry cwd [] disk f = None"
    by (simp add: update_entry_def nf)
  then show ?thesis using r by blast
qed

theorem rewrite_imports_idempotent_witness:
  "is_norm_abs ''/r/src/x.ts'' \<and> suffix ''.ts'' ''/r/src/x.ts''
   \<and> find_imports (import_line ''a'' ''./sub/../a.js'') = [''./sub/../a.js'']
   \<and> backslash \<notin> set ''./sub/../a.js''
   \<and> rewrite_imports ''/r'' [] ''/r/src/x.ts'' (import_line ''a'' ''./sub/../a.js'')
       = Inr (import_line ''a'' ''./a.js'')
   \<and> rewrite_imports ''/r'' [] ''/r/src/x.ts'' (import_line ''a'' ''./a.js'')
       = Inr (import_line ''a'' ''./a.js'')
   \<and> read_text (Map.empty(''/r/src/x.ts'' \<mapsto> import_line ''a'' ''./a.js'')) ''/r/src/x.ts''
       = Inr (import_line ''a'' ''./a.js'')
   \<and> update_entry ''/r'' [] (Map.empty(''/r/src/x.ts'' \<mapsto> import_line ''a'' ''./a.js'')) ''/r/src/x.ts''
       = None"
proof -
  have h1: "is_norm_abs ''/r/src/x.ts''" by code_simp
  have h2: "suffix ''.ts'' ''/r/src/x.ts''" by code_simp
  have h3: "\<forall>g \<in> set (find_imports (import_line ''a'' ''./sub/../a.js'')). backslash \<notin> set g"
    by code_simp
  have h4: "find_imports (import_line ''a'' ''./sub/../a.js'') = [''./sub/../a.js'']" by code_simp
  have h5: "backslash \<notin> set ''./sub/../a.js''" by code_simp
  have h6: "rewrite_imports ''/r'' [] ''/r/src/x.ts'' (import_line ''a'' ''./sub/../a.js'')
       = Inr (import_line ''a'' ''./a.js'')" by code_simp
  have h7: "read_text (Map.empty(''/r/src/x.ts'' \<mapsto> import_line ''a'' ''./a.js'')) ''/r/src/x.ts''
       = Inr (import_line ''a'' ''./a.js'')" by code_simp
  from rewrite_imports_idempotent[OF h1 h2 h3, of "''/r''"] obtain c' where
    c': "rewrite_imports ''/r'' [] ''/r/src/x.ts'' (import_line ''a'' ''./sub/../a.js'') = Inr c'"
        "rewrite_imports ''/r'' [] ''/r/src/x.ts'' c' = Inr c'"
        "\<forall>disk. read_text disk ''/r/src/x.ts'' = Inr c' \<longrightarrow> update_entry ''/r'' [] disk ''/r/src/x.ts'' = None"
    by blast
  from c'(1) h6 have e: "c' = import_line ''a'' ''./a.js''" by simp
  from c'(2,3) h7 have
    "rewrite_imports ''/r'' [] ''/r/src/x.ts'' (import_line ''a'' ''./a.js'') = Inr (import_line ''a'' ''./a.js'')"
    "update_entry ''/r'' [] (Map.empty(''/r/src/x.ts'' \<mapsto> import_line ''a'' ''./a.js'')) ''/r/src/x.ts'' = None"
    unfolding e by blast+
  then show ?thesis using h1 h2 h4 h5 h6 h7 by blast
qed
end
